theory Spec2Isabelle
  imports Main "HOL-Library.Word" "HOL-Library.Sublist"
begin

section \<open>The client engine of \<^verbatim>\<open>wayland/client.py\<close>\<close>

text \<open>
  The theory embeds the core of class \<^verbatim>\<open>Display\<close> (id allocation, decoding of incoming
  frames, flushing of the outbound queue, dispatch and the roundtrip barrier) and the two
  event handlers of class \<^verbatim>\<open>Registry\<close>. Methods mutate \<^verbatim>\<open>self\<close>; the model passes the
  state explicitly. A raised exception is the left summand of the result and carries the
  state as the mutations made before the \<^verbatim>\<open>raise\<close> left it.
\<close>

subsection \<open>Data\<close>

type_synonym byte = "8 word"
type_synonym fd = nat

text \<open>
  A class is known by its name and the two class attributes the engine reads:
  \<^verbatim>\<open>interface\<close> (absent in most classes) and \<^verbatim>\<open>events\<close>.
\<close>

record pyclass =
  cname :: string
  interface :: "string option"
  events :: "string list"

text \<open>
  A proxy object is known by its class and its \<^verbatim>\<open>obj_id\<close>. Python compares proxies by
  identity; the model compares the pair. The two agree as long as no id is handed out
  twice, and \<^verbatim>\<open>next_id\<close> only repeats an id that sits in \<^verbatim>\<open>open_ids\<close>.
\<close>

record proxy =
  cls :: pyclass
  obj_id :: nat

text \<open>Decoded argument values of an event, and the tuple \<^verbatim>\<open>(obj, op, args)\<close> that
  \<^verbatim>\<open>unpack_event\<close> returns; \<^verbatim>\<open>None\<close> when it falls off its last branch.\<close>

datatype arg = UInt nat | Str string | Fd fd

type_synonym event = "(proxy \<times> nat \<times> arg list) option"

text \<open>The value stored under an interface name in \<^verbatim>\<open>Display.globals\<close>: one proxy, or a
  Python list of them.\<close>

datatype gslot = Single proxy | Collection "proxy list"

datatype error =
    StopIteration
  | ValueError
  | KeyError
  | TypeError
  | IndexError
  | AttributeError
  | StructError
  | UnicodeDecodeError
  | OSError "nat option"
  | SystemExit

text \<open>
  The socket is a script: what each successive \<^verbatim>\<open>sendmsg\<close>/\<^verbatim>\<open>send\<close> call and each
  successive \<^verbatim>\<open>recvmsg\<close> call will answer. A call made when its script is used up
  never returns. \<^verbatim>\<open>wire_log\<close> records the send calls made, in order.
\<close>

datatype send_result = Sent nat | SendErr nat
datatype recv_result = Recvd "byte list" "fd list" | RecvErr nat
datatype wire_call = Sendmsg "byte list" "fd list" | Send "byte list"

record connection =
  send_script :: "send_result list"
  recv_script :: "recv_result list"
  wire_log :: "wire_call list"

record display =
  global_templates :: "string \<rightharpoonup> pyclass"
  connection :: connection
  open_ids :: "nat list"
  ids :: nat
  objects :: "nat \<rightharpoonup> proxy"
  dead_objects :: "nat list"
  out_queue :: "(byte list \<times> fd list) list"
  event_queue :: "event list"
  incoming_fds :: "fd list"
  previous_data :: "byte list"
  globals :: "string \<rightharpoonup> gslot"

type_synonym ('s, 'a) res = "error \<times> 's + 'a"
type_synonym 'a result = "(display, 'a) res"

subsection \<open>Id allocation\<close>

text \<open>
  \<^verbatim>\<open>self.ids = iter(range(1, 0xffffffff))\<close>: field \<open>ids\<close> is the value the iterator yields
  next; the iterator is exhausted once it reaches \<^verbatim>\<open>0xffffffff\<close>.
\<close>

definition next_id :: "display \<Rightarrow> (nat \<times> display) result" where
  "next_id s =
     (case open_ids s of
        i # rest \<Rightarrow> Inr (i, s\<lparr>open_ids := rest\<rparr>)
      | [] \<Rightarrow> if ids s < 0xffffffff then Inr (ids s, s\<lparr>ids := Suc (ids s)\<rparr>)
              else Inl (StopIteration, s))"

text \<open>\<open>n\<close> calls of \<^verbatim>\<open>next_id\<close> in a row, with nothing in between.\<close>

fun next_ids :: "nat \<Rightarrow> display \<Rightarrow> (nat list \<times> display) result" where
  "next_ids 0 s = Inr ([], s)"
| "next_ids (Suc n) s =
     (case next_id s of
        Inl e \<Rightarrow> Inl e
      | Inr (i, s1) \<Rightarrow>
          (case next_ids n s1 of
             Inl e \<Rightarrow> Inl e
           | Inr (js, s2) \<Rightarrow> Inr (i # js, s2)))"

definition remove_object :: "nat \<Rightarrow> display \<Rightarrow> display" where
  "remove_object obj s = s\<lparr>dead_objects := dead_objects s @ [obj]\<rparr>"

text \<open>
  \<^verbatim>\<open>list.remove\<close> deletes the first occurrence and raises \<^verbatim>\<open>ValueError\<close> when there is
  none; \<^verbatim>\<open>del d[k]\<close> raises \<^verbatim>\<open>KeyError\<close> on a missing key.
\<close>

definition handle_delete_id :: "nat \<Rightarrow> display \<Rightarrow> display result" where
  "handle_delete_id obj s =
     (let s1 = (if obj \<in> dom (objects s) then remove_object obj s else s) in
      if obj \<notin> set (dead_objects s1) then Inl (ValueError, s1)
      else
        (let s2 = s1\<lparr>dead_objects := remove1 obj (dead_objects s1)\<rparr> in
         if obj \<notin> dom (objects s2) then Inl (KeyError, s2)
         else Inr (s2\<lparr>objects := (objects s2)(obj := None)\<rparr>)))"

subsection \<open>Decoding incoming bytes\<close>

text \<open>
  \<^verbatim>\<open>struct.unpack("I", b)\<close> reads four bytes in the byte order of the machine and raises
  \<^verbatim>\<open>struct.error\<close> on any other length; the model fixes the little-endian order.
  \<^verbatim>\<open>pack_I\<close> is its inverse on values below \<open>2 ^ 32\<close>.
\<close>

definition u32_le :: "byte list \<Rightarrow> nat" where
  "u32_le b = unat (b ! 0) + 256 * unat (b ! 1) + 65536 * unat (b ! 2) + 16777216 * unat (b ! 3)"

definition unpack_I :: "byte list \<Rightarrow> error + nat" where
  "unpack_I b = (if length b = 4 then Inr (u32_le b) else Inl StructError)"

definition pack_I :: "nat \<Rightarrow> byte list" where
  "pack_I n = [of_nat n, of_nat (n div 256), of_nat (n div 65536), of_nat (n div 16777216)]"

text \<open>The header of line 95, read off a buffer of at least eight bytes, and the two
  halves of its second word.\<close>

definition hdr_obj_id :: "byte list \<Rightarrow> nat" where
  "hdr_obj_id data = u32_le (take 4 data)"

definition hdr_sizeop :: "byte list \<Rightarrow> nat" where
  "hdr_sizeop data = u32_le (take 4 (drop 4 data))"

definition hdr_size :: "byte list \<Rightarrow> nat" where
  "hdr_size data = hdr_sizeop data div 2 ^ 16"

definition hdr_op :: "byte list \<Rightarrow> nat" where
  "hdr_op data = hdr_sizeop data mod 2 ^ 16"

text \<open>
  \<^verbatim>\<open>obj.unpack_event(op, data, fds)\<close> is a method of the target's class. It may pop
  descriptors off the list it is given, which is \<^verbatim>\<open>self.incoming_fds\<close> itself, so the model
  returns the list that remains; it may raise.
\<close>

type_synonym unpacker = "proxy \<Rightarrow> nat \<Rightarrow> byte list \<Rightarrow> fd list \<Rightarrow> error + event \<times> fd list"

text \<open>One pass through the body of the \<^verbatim>\<open>while\<close> loop of \<^verbatim>\<open>decode\<close> (lines 94 to 112),
  the loop condition included.\<close>

datatype decode_step = Stop | Raise error | Continue "byte list" display

definition decode_body :: "unpacker \<Rightarrow> byte list \<Rightarrow> display \<Rightarrow> decode_step" where
  "decode_body U data s =
     (if length data \<ge> 8 then
        (let obj_id = hdr_obj_id data; size = hdr_size data; op = hdr_op data in
         if length data < size then Stop
         else if obj_id \<in> set (dead_objects s) then Continue (drop size data) s
         else
           (case objects s obj_id of
              Some obj \<Rightarrow>
                (case U obj op (drop 8 (take size data)) (incoming_fds s) of
                   Inl e \<Rightarrow> Raise e
                 | Inr (event, fds) \<Rightarrow>
                     Continue (drop size data)
                       (s\<lparr>incoming_fds := fds, event_queue := event_queue s @ [event]\<rparr>))
            | None \<Rightarrow> Raise (OSError None)))
      else Stop)"

text \<open>The loop. A frame that declares size 0 is never consumed, so the loop need not end:
  \<open>None\<close> is the run that does not return.\<close>

partial_function (option) decode_loop ::
  "unpacker \<Rightarrow> byte list \<Rightarrow> display \<Rightarrow> (byte list \<times> display) result option" where
  "decode_loop U data s =
     (case decode_body U data s of
        Stop \<Rightarrow> Some (Inr (data, s))
      | Raise e \<Rightarrow> Some (Inl (e, s))
      | Continue data' s' \<Rightarrow> decode_loop U data' s')"

declare decode_loop.simps [code]

definition decode :: "unpacker \<Rightarrow> byte list \<Rightarrow> display \<Rightarrow> display result option" where
  "decode U data s =
     (let buf = (if previous_data s \<noteq> [] then previous_data s @ data else data) in
      case decode_loop U buf s of
        None \<Rightarrow> None
      | Some (Inl e) \<Rightarrow> Some (Inl e)
      | Some (Inr (rest, s')) \<Rightarrow> Some (Inr (s'\<lparr>previous_data := rest\<rparr>)))"

text \<open>Successive \<^verbatim>\<open>decode\<close> calls, one per chunk; a raise ends the run.\<close>

fun feed :: "unpacker \<Rightarrow> byte list list \<Rightarrow> display \<Rightarrow> display result option" where
  "feed U [] s = Some (Inr s)"
| "feed U (c # cs) s =
     (case decode U c s of
        None \<Rightarrow> None
      | Some (Inl e) \<Rightarrow> Some (Inl e)
      | Some (Inr s') \<Rightarrow> feed U cs s')"

subsection \<open>The classes of the engine and their \<^verbatim>\<open>unpack_event\<close>\<close>

definition Display_class :: pyclass where
  "Display_class = \<lparr>cname = ''Display'', interface = None, events = [''error'', ''delete_id'']\<rparr>"

definition Registry_class :: pyclass where
  "Registry_class = \<lparr>cname = ''Registry'', interface = None, events = [''global'', ''global_remove'']\<rparr>"

definition Callback_class :: pyclass where
  "Callback_class = \<lparr>cname = ''Callback'', interface = None, events = [''done'']\<rparr>"

text \<open>The eight classes of \<^verbatim>\<open>known_globals\<close> (line 38), in its order.\<close>

definition known_globals :: "pyclass list" where
  "known_globals =
     [\<lparr>cname = ''Compositor'', interface = Some ''wl_compositor'', events = []\<rparr>,
      \<lparr>cname = ''Shell'', interface = Some ''wl_shell'', events = []\<rparr>,
      \<lparr>cname = ''Shm'', interface = Some ''wl_shm'', events = [''format'']\<rparr>,
      \<lparr>cname = ''Seat'', interface = Some ''wl_seat'', events = [''capabilities'', ''name'']\<rparr>,
      \<lparr>cname = ''Output'', interface = Some ''wl_output'',
         events = [''geometry'', ''mode'', ''done'', ''scale'']\<rparr>,
      \<lparr>cname = ''Subcompositor'', interface = Some ''wl_subcompositor'', events = []\<rparr>,
      \<lparr>cname = ''DataDeviceManager'', interface = Some ''wl_data_device_manager'', events = []\<rparr>,
      \<lparr>cname = ''ZxdgShellV6'', interface = Some ''zxdg_shell_v6'', events = [''ping'']\<rparr>]"

text \<open>
  \<^verbatim>\<open>{c.interface: c for c in known_globals}\<close>: a later class replaces an earlier one of the
  same interface; a class without the attribute raises.
\<close>

fun templates_of :: "pyclass list \<Rightarrow> (string \<rightharpoonup> pyclass) \<Rightarrow> error + (string \<rightharpoonup> pyclass)" where
  "templates_of [] m = Inr m"
| "templates_of (c # cs) m =
     (case interface c of
        None \<Rightarrow> Inl AttributeError
      | Some i \<Rightarrow> templates_of cs (m(i \<mapsto> c)))"

text \<open>\<^verbatim>\<open>bytes.decode("utf-8")\<close> is a parameter \<open>utf8\<close>: \<open>None\<close> where it raises.\<close>

type_synonym utf8 = "byte list \<Rightarrow> string option"

text \<open>\<^verbatim>\<open>Display.unpack_event\<close>, lines 141 to 148.\<close>

definition Display_unpack_event :: "utf8 \<Rightarrow> unpacker" where
  "Display_unpack_event utf8 self op data fds =
     (if op = 0 then
        (if length (take 12 data) \<noteq> 12 then Inl StructError
         else
           (let object_id = u32_le (take 4 data);
                code = u32_le (take 4 (drop 4 data));
                len = u32_le (take 4 (drop 8 data)) in
            case utf8 (drop 12 (take (len + 11) data)) of
              None \<Rightarrow> Inl UnicodeDecodeError
            | Some message \<Rightarrow> Inr (Some (self, op, [UInt object_id, UInt code, Str message]), fds)))
      else if op = 1 then
        (case unpack_I data of
           Inl e \<Rightarrow> Inl e
         | Inr object_id \<Rightarrow> Inr (Some (self, op, [UInt object_id]), fds))
      else Inr (None, fds))"

text \<open>\<^verbatim>\<open>Registry.unpack_event\<close>, lines 293 to 301; \<^verbatim>\<open>data[-4:]\<close> is the last four bytes.\<close>

definition Registry_unpack_event :: "utf8 \<Rightarrow> unpacker" where
  "Registry_unpack_event utf8 self op data fds =
     (if op = 0 then
        (if length (take 8 data) \<noteq> 8 then Inl StructError
         else
           (let object_id = u32_le (take 4 data);
                len = u32_le (take 4 (drop 4 data)) in
            case utf8 (drop 8 (take (7 + len) data)) of
              None \<Rightarrow> Inl UnicodeDecodeError
            | Some iface \<Rightarrow>
                (case unpack_I (drop (length data - 4) data) of
                   Inl e \<Rightarrow> Inl e
                 | Inr version \<Rightarrow>
                     Inr (Some (self, op, [UInt object_id, Str iface, UInt version]), fds))))
      else if op = 1 then
        (case unpack_I data of
           Inl e \<Rightarrow> Inl e
         | Inr name \<Rightarrow> Inr (Some (self, op, [UInt name]), fds))
      else Inr (None, fds))"

text \<open>\<^verbatim>\<open>Callback.unpack_event\<close>, line 318.\<close>

definition Callback_unpack_event :: unpacker where
  "Callback_unpack_event self op data fds =
     (case unpack_I data of
        Inl e \<Rightarrow> Inl e
      | Inr callback_data \<Rightarrow> Inr (Some (self, op, [UInt callback_data]), fds))"

text \<open>
  The method the target's class selects. \<open>ext\<close> stands for the \<^verbatim>\<open>unpack_event\<close> methods
  of the classes of the interface layer.
\<close>

definition unpack_event :: "utf8 \<Rightarrow> unpacker \<Rightarrow> unpacker" where
  "unpack_event utf8 ext obj =
     (if cname (cls obj) = ''Display'' then Display_unpack_event utf8 obj
      else if cname (cls obj) = ''Registry'' then Registry_unpack_event utf8 obj
      else if cname (cls obj) = ''Callback'' then Callback_unpack_event obj
      else ext obj)"

subsection \<open>Flushing the outbound queue\<close>

text \<open>The inner loop of line 120: plain \<^verbatim>\<open>send\<close> calls until the count reaches the length.
  \<open>Inl e\<close> is a \<^verbatim>\<open>socket.error\<close> with errno \<open>e\<close>.\<close>

function send_rest :: "byte list \<Rightarrow> nat \<Rightarrow> connection \<Rightarrow> ((nat + unit) \<times> connection) option" where
  "send_rest data sent c =
     (if sent < length data then
        (case send_script c of
           [] \<Rightarrow> None
         | r # rs \<Rightarrow>
             (let c1 = c\<lparr>send_script := rs, wire_log := wire_log c @ [Send (drop sent data)]\<rparr> in
              case r of
                Sent n \<Rightarrow> send_rest data (sent + n) c1
              | SendErr e \<Rightarrow> Some (Inl e, c1)))
      else Some (Inr (), c))"
  by pat_completeness auto
termination
  by (relation "measure (\<lambda>(data, sent, c). length (send_script c))") auto

declare send_rest.simps [simp del]

text \<open>The body of the \<^verbatim>\<open>try\<close> of lines 119 to 121 for one queue entry.\<close>

definition send_entry :: "byte list \<times> fd list \<Rightarrow> connection \<Rightarrow> ((nat + unit) \<times> connection) option" where
  "send_entry ent c =
     (case send_script c of
        [] \<Rightarrow> None
      | r # rs \<Rightarrow>
          (let c1 = c\<lparr>send_script := rs, wire_log := wire_log c @ [Sendmsg (fst ent) (snd ent)]\<rparr> in
           case r of
             Sent n \<Rightarrow> send_rest (fst ent) n c1
           | SendErr e \<Rightarrow> Some (Inl e, c1)))"

function flush :: "display \<Rightarrow> display result option" where
  "flush s =
     (case out_queue s of
        [] \<Rightarrow> Some (Inr s)
      | ent # q \<Rightarrow>
          (let s1 = s\<lparr>out_queue := q\<rparr> in
           case send_entry ent (connection s1) of
             None \<Rightarrow> None
           | Some (Inl e, c) \<Rightarrow>
               (if e = 11
                then Some (Inr (s1\<lparr>connection := c, out_queue := ent # out_queue s1\<rparr>))
                else Some (Inl (OSError (Some e), s1\<lparr>connection := c\<rparr>)))
           | Some (Inr u, c) \<Rightarrow> flush (s1\<lparr>connection := c\<rparr>)))"
  by pat_completeness auto
termination
  by (relation "measure (\<lambda>s. length (out_queue s))") auto

declare flush.simps [simp del]

text \<open>The entries a stretch of the log handed to \<^verbatim>\<open>sendmsg\<close>, in order.\<close>

fun started :: "wire_call list \<Rightarrow> (byte list \<times> fd list) list" where
  "started [] = []"
| "started (Sendmsg data fds # cs) = (data, fds) # started cs"
| "started (Send data # cs) = started cs"

subsection \<open>Receiving and dispatching\<close>

text \<open>
  \<^verbatim>\<open>recv\<close>, lines 76 to 89. The script entry gives the bytes and the descriptors that the
  loop over \<^verbatim>\<open>ancdata\<close> collects. The \<^verbatim>\<open>except\<close> clause also covers the \<^verbatim>\<open>decode\<close>
  call: it swallows a \<^verbatim>\<open>socket.error\<close> of errno 11 and raises anything else again.
\<close>

definition recv_except :: "error \<Rightarrow> display \<Rightarrow> display result option" where
  "recv_except e s = (if e = OSError (Some 11) then Some (Inr s) else Some (Inl (e, s)))"

definition recv :: "unpacker \<Rightarrow> display \<Rightarrow> display result option" where
  "recv U s =
     (case recv_script (connection s) of
        [] \<Rightarrow> None
      | r # rs \<Rightarrow>
          (let s1 = s\<lparr>connection := (connection s)\<lparr>recv_script := rs\<rparr>\<rparr> in
           case r of
             RecvErr e \<Rightarrow> recv_except (OSError (Some e)) s1
           | Recvd data fds \<Rightarrow>
               (let s2 = s1\<lparr>incoming_fds := incoming_fds s1 @ fds\<rparr> in
                if data \<noteq> [] then
                  (case decode U data s2 of
                     None \<Rightarrow> None
                   | Some (Inl (e, s3)) \<Rightarrow> recv_except e s3
                   | Some (Inr s3) \<Rightarrow> Some (Inr s3))
                else Some (Inr s2))))"

text \<open>What a stretch of the receive script delivers: the bytes of its entries joined, and
  whether an entry lets \<^verbatim>\<open>recv\<close> return (data, or the would-block errno 11).\<close>

fun recv_bytes :: "recv_result list \<Rightarrow> byte list" where
  "recv_bytes [] = []"
| "recv_bytes (Recvd data fds # rs) = data @ recv_bytes rs"
| "recv_bytes (RecvErr e # rs) = recv_bytes rs"

fun quiet :: "recv_result \<Rightarrow> bool" where
  "quiet (Recvd data fds) = True"
| "quiet (RecvErr e) = (e = 11)"

text \<open>The descriptors a stretch of the receive script adds to \<^verbatim>\<open>incoming_fds\<close>.\<close>

fun recv_fds :: "recv_result list \<Rightarrow> fd list" where
  "recv_fds [] = []"
| "recv_fds (Recvd data fds # rs) = fds @ recv_fds rs"
| "recv_fds (RecvErr e # rs) = recv_fds rs"

text \<open>Line 66: \<^verbatim>\<open>while not self.event_queue: self.recv()\<close>.\<close>

partial_function (option) recv_until_event :: "unpacker \<Rightarrow> display \<Rightarrow> display result option" where
  "recv_until_event U s =
     (if event_queue s = [] then
        (case recv U s of
           None \<Rightarrow> None
         | Some (Inl e) \<Rightarrow> Some (Inl e)
         | Some (Inr s') \<Rightarrow> recv_until_event U s')
      else Some (Inr s))"

declare recv_until_event.simps [code]

text \<open>
  \<^verbatim>\<open>getattr(obj, method_name)(*args)\<close> runs a handler, which may change the connection and
  whatever else it holds: the model's handlers work on a pair of some outside state \<open>'x\<close>
  and the connection.
\<close>

type_synonym 'x handlers =
  "proxy \<Rightarrow> string \<Rightarrow> arg list \<Rightarrow> 'x \<times> display \<Rightarrow> ('x \<times> display, 'x \<times> display) res"

text \<open>\<^verbatim>\<open>dispatch_pending\<close>, lines 70 to 74. Unpacking a queued \<^verbatim>\<open>None\<close> is a
  \<^verbatim>\<open>TypeError\<close>, an opcode beyond \<^verbatim>\<open>obj.events\<close> an \<^verbatim>\<open>IndexError\<close>.\<close>

partial_function (option) dispatch_pending ::
  "'x handlers \<Rightarrow> 'x \<Rightarrow> display \<Rightarrow> ('x \<times> display, 'x \<times> display) res option" where
  "dispatch_pending H x s =
     (case event_queue s of
        [] \<Rightarrow> Some (Inr (x, s))
      | ev # q \<Rightarrow>
          (let s1 = s\<lparr>event_queue := q\<rparr> in
           case ev of
             None \<Rightarrow> Some (Inl (TypeError, (x, s1)))
           | Some (obj, event, args) \<Rightarrow>
               (if event < length (events (cls obj)) then
                  (case H obj (''handle_'' @ events (cls obj) ! event) args (x, s1) of
                     Inl e \<Rightarrow> Some (Inl e)
                   | Inr (x', s') \<Rightarrow> dispatch_pending H x' s')
                else Some (Inl (IndexError, (x, s1))))))"

declare dispatch_pending.simps [code]

text \<open>\<^verbatim>\<open>dispatch\<close>, lines 64 to 68.\<close>

definition dispatch ::
  "unpacker \<Rightarrow> 'x handlers \<Rightarrow> 'x \<Rightarrow> display \<Rightarrow> ('x \<times> display, 'x \<times> display) res option" where
  "dispatch U H x s =
     (case flush s of
        None \<Rightarrow> None
      | Some (Inl (e, s1)) \<Rightarrow> Some (Inl (e, (x, s1)))
      | Some (Inr s1) \<Rightarrow>
          (case recv_until_event U s1 of
             None \<Rightarrow> None
           | Some (Inl (e, s2)) \<Rightarrow> Some (Inl (e, (x, s2)))
           | Some (Inr s2) \<Rightarrow> dispatch_pending H x s2))"

subsection \<open>The roundtrip barrier\<close>

text \<open>
  \<^verbatim>\<open>pack_arguments\<close> is a method of \<^verbatim>\<open>WaylandObject\<close> in \<^verbatim>\<open>base.py\<close>, which is not part
  of the sources at hand: it is a parameter, from the sender, the opcode and the
  arguments to the bytes of the request.
\<close>

type_synonym packer = "proxy \<Rightarrow> nat \<Rightarrow> arg list \<Rightarrow> byte list"

text \<open>\<^verbatim>\<open>sync\<close>, lines 169 to 173; \<open>self\<close> is the display's own proxy.\<close>

definition sync :: "packer \<Rightarrow> proxy \<Rightarrow> display \<Rightarrow> (proxy \<times> display) result" where
  "sync P self s =
     (case next_id s of
        Inl e \<Rightarrow> Inl e
      | Inr (new_id, s1) \<Rightarrow>
          (let callback = \<lparr>cls = Callback_class, obj_id = new_id\<rparr>;
               s2 = s1\<lparr>objects := (objects s1)(new_id \<mapsto> callback)\<rparr>
           in Inr (callback, s2\<lparr>out_queue := out_queue s2 @ [(P self 0 [UInt new_id], [])]\<rparr>)))"

text \<open>
  \<^verbatim>\<open>l.handle_done = done\<close> (line 137) puts the closure \<^verbatim>\<open>done\<close> on the one object \<open>l\<close>;
  every other lookup finds the handler it found before. The closure's variable
  \<^verbatim>\<open>ready\<close> is the first component of the outside state.
\<close>

definition with_done :: "proxy \<Rightarrow> 'x handlers \<Rightarrow> (bool \<times> 'x) handlers" where
  "with_done l H obj name args rs =
     (case rs of ((ready, x), s) \<Rightarrow>
        if obj = l \<and> name = ''handle_done'' then
          (case args of
             [data] \<Rightarrow> Inr ((True, x), s)
           | _ \<Rightarrow> Inl (TypeError, rs))
        else
          (case H obj name args (x, s) of
             Inl (e, (x', s')) \<Rightarrow> Inl (e, ((ready, x'), s'))
           | Inr (x', s') \<Rightarrow> Inr ((ready, x'), s')))"

text \<open>Lines 138 and 139. The counter \<open>n\<close> is not in the source: it counts the
  \<^verbatim>\<open>dispatch\<close> calls that have returned.\<close>

partial_function (option) roundtrip_loop ::
  "unpacker \<Rightarrow> (bool \<times> 'x) handlers \<Rightarrow> nat \<Rightarrow> bool \<times> 'x \<Rightarrow> display \<Rightarrow>
     ((bool \<times> 'x) \<times> display, nat \<times> 'x \<times> display) res option" where
  "roundtrip_loop U H n rx s =
     (if fst rx then Some (Inr (n, snd rx, s))
      else
        (case dispatch U H rx s of
           None \<Rightarrow> None
         | Some (Inl e) \<Rightarrow> Some (Inl e)
         | Some (Inr (rx', s')) \<Rightarrow> roundtrip_loop U H (Suc n) rx' s'))"

declare roundtrip_loop.simps [code]

definition roundtrip ::
  "unpacker \<Rightarrow> packer \<Rightarrow> 'x handlers \<Rightarrow> proxy \<Rightarrow> 'x \<Rightarrow> display \<Rightarrow>
     ((bool \<times> 'x) \<times> display, nat \<times> 'x \<times> display) res option" where
  "roundtrip U P H self x s =
     (case sync P self s of
        Inl (e, s1) \<Rightarrow> Some (Inl (e, ((False, x), s1)))
      | Inr (l, s1) \<Rightarrow> roundtrip_loop U (with_done l H) 0 (False, x) s1)"

subsection \<open>The registry's handlers\<close>

text \<open>A \<^verbatim>\<open>Registry\<close> object: its proxy and its own table \<^verbatim>\<open>global_objects\<close>.\<close>

record registry =
  reg_proxy :: proxy
  global_objects :: "nat \<rightharpoonup> nat"

text \<open>
  Lines 255 to 260. \<^verbatim>\<open>isinstance\<close> holds of a single proxy of the template's class and
  not of a list; appending to a proxy of another class has no \<^verbatim>\<open>append\<close> to call.
\<close>

definition globals_add :: "pyclass \<Rightarrow> string \<Rightarrow> proxy \<Rightarrow> display \<Rightarrow> display result" where
  "globals_add c iface obj s =
     (case globals s iface of
        None \<Rightarrow> Inr (s\<lparr>globals := (globals s)(iface \<mapsto> Single obj)\<rparr>)
      | Some (Single p) \<Rightarrow>
          (if cls p = c then Inr (s\<lparr>globals := (globals s)(iface \<mapsto> Collection ([p] @ [obj]))\<rparr>)
           else Inl (AttributeError, s))
      | Some (Collection ps) \<Rightarrow> Inr (s\<lparr>globals := (globals s)(iface \<mapsto> Collection (ps @ [obj]))\<rparr>))"

text \<open>\<^verbatim>\<open>handle_global\<close>, lines 250 to 263. The \<^verbatim>\<open>else\<close> branch only prints.\<close>

definition handle_global ::
  "packer \<Rightarrow> nat \<Rightarrow> string \<Rightarrow> nat \<Rightarrow> registry \<times> display \<Rightarrow>
     (registry \<times> display, registry \<times> display) res" where
  "handle_global P name iface version rs =
     (case rs of (reg, s) \<Rightarrow>
        (case global_templates s iface of
           Some c \<Rightarrow>
             (case next_id s of
                Inl (e, s1) \<Rightarrow> Inl (e, (reg, s1))
              | Inr (new_id, s1) \<Rightarrow>
                  (let s2 = s1\<lparr>out_queue := out_queue s1 @
                             [(P (reg_proxy reg) 0 [UInt name, Str iface, UInt version, UInt new_id], [])]\<rparr>;
                       reg1 = reg\<lparr>global_objects := (global_objects reg)(name \<mapsto> new_id)\<rparr>;
                       obj = \<lparr>cls = c, obj_id = new_id\<rparr>
                   in case globals_add c iface obj s2 of
                        Inl (e, s3) \<Rightarrow> Inl (e, (reg1, s3))
                      | Inr s3 \<Rightarrow> Inr (reg1, s3\<lparr>objects := (objects s3)(new_id \<mapsto> obj)\<rparr>)))
         | None \<Rightarrow> Inr (reg, s)))"

text \<open>
  Lines 284 to 290. A single proxy other than \<open>obj\<close> has no \<^verbatim>\<open>remove\<close> to call;
  \<^verbatim>\<open>list.remove\<close> raises when \<open>obj\<close> is not in the list.
\<close>

definition globals_remove :: "string \<Rightarrow> proxy \<Rightarrow> display \<Rightarrow> display result" where
  "globals_remove iface obj s =
     (case globals s iface of
        None \<Rightarrow> Inr s
      | Some (Single p) \<Rightarrow>
          (if p \<noteq> obj then Inl (AttributeError, s)
           else Inr (s\<lparr>globals := (globals s)(iface := None)\<rparr>))
      | Some (Collection ps) \<Rightarrow>
          (if obj \<notin> set ps then Inl (ValueError, s)
           else
             (let ps1 = remove1 obj ps in
              if length ps1 = 1 then Inr (s\<lparr>globals := (globals s)(iface \<mapsto> Single (ps1 ! 0))\<rparr>)
              else Inr (s\<lparr>globals := (globals s)(iface \<mapsto> Collection ps1)\<rparr>))))"

text \<open>
  \<^verbatim>\<open>handle_global_remove\<close>, lines 280 to 291. Its last line calls
  \<^verbatim>\<open>self.display.remove_obj\<close>. Class \<^verbatim>\<open>Display\<close> defines \<^verbatim>\<open>remove_object\<close> and nothing named
  \<^verbatim>\<open>remove_obj\<close>, so the lookup can only succeed through the base class
  \<^verbatim>\<open>WaylandObject\<close> of \<^verbatim>\<open>base.py\<close>, which is not part of the sources at hand. The
  parameter \<open>B\<close> is what the base class provides under that name: \<open>None\<close> when it
  provides nothing and the lookup raises \<^verbatim>\<open>AttributeError\<close>.
\<close>

type_synonym base_remove_obj = "(nat \<Rightarrow> display \<Rightarrow> display result) option"

definition handle_global_remove ::
  "base_remove_obj \<Rightarrow> nat \<Rightarrow> registry \<times> display \<Rightarrow>
     (registry \<times> display, registry \<times> display) res" where
  "handle_global_remove B name rs =
     (case rs of (reg, s) \<Rightarrow>
        (case global_objects reg name of
           None \<Rightarrow> Inr (reg, s)
         | Some id_num \<Rightarrow>
             (case objects s id_num of
                None \<Rightarrow> Inl (KeyError, (reg, s))
              | Some obj \<Rightarrow>
                  (case interface (cls obj) of
                     None \<Rightarrow> Inl (AttributeError, (reg, s))
                   | Some iface \<Rightarrow>
                       (case globals_remove iface obj s of
                          Inl (e, s1) \<Rightarrow> Inl (e, (reg, s1))
                        | Inr s1 \<Rightarrow>
                            (case B of
                               None \<Rightarrow> Inl (AttributeError, (reg, s1))
                             | Some remove_obj \<Rightarrow>
                                 (case remove_obj id_num s1 of
                                    Inl (e, s2) \<Rightarrow> Inl (e, (reg, s2))
                                  | Inr s2 \<Rightarrow> Inr (reg, s2))))))))"

subsection \<open>The constructor\<close>

text \<open>
  \<^verbatim>\<open>Display.__init__\<close> up to line 54, for a template table and a connected socket:
  the allocator is set up, the display takes the first id for itself and enters itself
  in \<^verbatim>\<open>objects\<close>. The fields assigned after line 47 already hold their values in
  \<open>Display_blank\<close>; \<^verbatim>\<open>next_id\<close> reads none of them.
\<close>

definition Display_blank :: "(string \<rightharpoonup> pyclass) \<Rightarrow> connection \<Rightarrow> display" where
  "Display_blank T c =
     \<lparr>global_templates = T, connection = c, open_ids = [], ids = 1,
      objects = Map.empty, dead_objects = [], out_queue = [], event_queue = [],
      incoming_fds = [], previous_data = [], globals = Map.empty\<rparr>"

definition Display_init :: "(string \<rightharpoonup> pyclass) \<Rightarrow> connection \<Rightarrow> (proxy \<times> display) result" where
  "Display_init T c =
     (let s0 = Display_blank T c
      in case next_id s0 of
           Inl e \<Rightarrow> Inl e
         | Inr (i, s1) \<Rightarrow>
             (let self = \<lparr>cls = Display_class, obj_id = i\<rparr>
              in Inr (self, s1\<lparr>objects := [i \<mapsto> self]\<rparr>)))"

subsection \<open>Auxiliaries\<close>

text \<open>A socket that answers nothing, and the state a call leaves behind, returned or
  raised.\<close>

definition silent :: connection where
  "silent = \<lparr>send_script = [], recv_script = [], wire_log = []\<rparr>"

definition final :: "display result \<Rightarrow> display" where
  "final r = (case r of Inl (e, s) \<Rightarrow> s | Inr s \<Rightarrow> s)"

subsection \<open>The wire format\<close>

text \<open>The bytes of a frame as the decoder reads them back: the target, then the size
  (header included) over the opcode, then the body.\<close>

definition frame :: "nat \<Rightarrow> nat \<Rightarrow> byte list \<Rightarrow> byte list" where
  "frame target op body = pack_I target @ pack_I ((8 + length body) * 2 ^ 16 + op) @ body"

text \<open>
  Modelled from the spec: \<^verbatim>\<open>WaylandObject.pack_arguments\<close> of \<^verbatim>\<open>base.py\<close> is missing. The
  spec's wire codec gives the layout: the header of a frame, then the arguments, with
  32-bit integers inline, a string as its 4-byte length, its bytes and zero bytes up to
  the next 4-byte boundary, and descriptors kept out of the payload.
\<close>

fun arg_bytes :: "arg \<Rightarrow> byte list" where
  "arg_bytes (UInt n) = pack_I n"
| "arg_bytes (Str s) =
     pack_I (length s) @ map of_char s @ replicate ((4 - length s mod 4) mod 4) 0"
| "arg_bytes (Fd f) = []"

definition pack_arguments :: packer where
  "pack_arguments self op args = frame (obj_id self) op (concat (map arg_bytes args))"

subsection \<open>Concrete states\<close>

text \<open>A connection on which object 5, a shared-memory pool, has been destroyed by the
  client (\<^verbatim>\<open>ShmPool.destroy\<close> calls \<^verbatim>\<open>remove_object\<close>) and the server has not answered
  yet; ids 1 to 5 have been issued.\<close>

definition pool_class :: pyclass where
  "pool_class = \<lparr>cname = ''ShmPool'', interface = None, events = []\<rparr>"

definition pending5 :: display where
  "pending5 = (Display_blank Map.empty silent)
     \<lparr>ids := 6,
      objects := [1 \<mapsto> \<lparr>cls = Display_class, obj_id = 1\<rparr>, 5 \<mapsto> \<lparr>cls = pool_class, obj_id = 5\<rparr>],
      dead_objects := [5]\<rparr>"

text \<open>A connection with the display and a callback 2 alive and id 5 pending deletion;
  an unpacker that knows the engine's classes only.\<close>

definition listening :: display where
  "listening = (Display_blank Map.empty silent)
     \<lparr>ids := 6,
      objects := [1 \<mapsto> \<lparr>cls = Display_class, obj_id = 1\<rparr>, 2 \<mapsto> \<lparr>cls = Callback_class, obj_id = 2\<rparr>],
      dead_objects := [5]\<rparr>"

definition core_unpack :: unpacker where
  "core_unpack = unpack_event (\<lambda>b. None) (\<lambda>obj op data fds. Inl AttributeError)"

text \<open>The connection \<open>listening\<close> about to receive a frame for an object 9 it has never heard of.\<close>

definition unknown9 :: display where
  "unknown9 = listening\<lparr>connection := silent\<lparr>recv_script := [Recvd (frame 9 0 [1, 0, 0, 0]) []]\<rparr>\<rparr>"

text \<open>The registry object of a connection, with id 2, before any global is announced.\<close>

definition registry2 :: registry where
  "registry2 = \<lparr>reg_proxy = \<lparr>cls = Registry_class, obj_id = 2\<rparr>, global_objects = Map.empty\<rparr>"

text \<open>
  Two requests queued, \<open>entryA\<close> before \<open>entryB\<close>, on a socket that takes two bytes of
  the first and then signals would-block (errno 11).
\<close>

definition entryA :: "byte list \<times> fd list" where
  "entryA = ([1, 0, 0, 0, 0, 0, 12, 0, 3, 0, 0, 0], [])"

definition entryB :: "byte list \<times> fd list" where
  "entryB = ([1, 0, 0, 0, 1, 0, 12, 0, 4, 0, 0, 0], [])"

definition congested :: display where
  "congested = (Display_blank Map.empty (silent\<lparr>send_script := [Sent 2, SendErr 11]\<rparr>))
     \<lparr>out_queue := [entryA, entryB]\<rparr>"

definition congested_after :: connection where
  "congested_after = silent\<lparr>wire_log := [Sendmsg (fst entryA) (snd entryA), Send (drop 2 (fst entryA))]\<rparr>"

text \<open>
  A connection that is about to make a roundtrip: id 1 is the display, the socket
  will take the twelve bytes of the request in one \<^verbatim>\<open>sendmsg\<close>, and the peer's answer, the
  \<^verbatim>\<open>done\<close> frame for object 2, arrives in three pieces, the first with a descriptor, and
  with a would-block in between; \<open>later\<close> is traffic that follows the answer.
  \<open>rt_synced\<close>, \<open>rt_flushed\<close> and \<open>rt_done\<close> are the connection after \<^verbatim>\<open>sync\<close>, after
  the flush and after the roundtrip.
\<close>

definition root :: proxy where
  "root = \<lparr>cls = Display_class, obj_id = 1\<rparr>"

definition callback2 :: proxy where
  "callback2 = \<lparr>cls = Callback_class, obj_id = 2\<rparr>"

definition answer :: "recv_result list" where
  "answer = [Recvd [2, 0, 0] [17], RecvErr 11, Recvd [0, 0, 0, 12, 0, 7, 0, 0] [], Recvd [0] []]"

definition later :: "recv_result list" where
  "later = [Recvd [1, 0, 0, 0] []]"

definition rt_start :: display where
  "rt_start = (Display_blank Map.empty
                 (silent\<lparr>send_script := [Sent 12], recv_script := answer @ later\<rparr>))
     \<lparr>ids := 2, objects := [1 \<mapsto> root]\<rparr>"

definition rt_synced :: display where
  "rt_synced = rt_start
     \<lparr>ids := 3, objects := [1 \<mapsto> root, 2 \<mapsto> callback2],
      out_queue := [(pack_arguments root 0 [UInt 2], [])]\<rparr>"

definition rt_flushed :: display where
  "rt_flushed = rt_synced
     \<lparr>connection := silent\<lparr>recv_script := answer @ later,
                              wire_log := [Sendmsg (pack_arguments root 0 [UInt 2]) []]\<rparr>,
      out_queue := []\<rparr>"

definition rt_done :: display where
  "rt_done = rt_flushed
     \<lparr>connection := silent\<lparr>recv_script := later,
                              wire_log := [Sendmsg (pack_arguments root 0 [UInt 2]) []]\<rparr>,
      incoming_fds := [17]\<rparr>"

text \<open>Handlers that do nothing, for a program that has installed none of its own.\<close>

definition no_handlers :: "unit handlers" where
  "no_handlers obj name args xs = Inr xs"

text \<open>
  A connection after the constructor and \<^verbatim>\<open>get_registry\<close>, with one template, for
  \<^verbatim>\<open>wl_output\<close>. On it the server announces two outputs, named 10 and 11, and then
  removes the first: the three handler calls in a row, a raise ending the run.
\<close>

definition Output_class :: pyclass where
  "Output_class = \<lparr>cname = ''Output'', interface = Some ''wl_output'',
                    events = [''geometry'', ''mode'', ''done'', ''scale'']\<rparr>"

definition bootstrapped :: display where
  "bootstrapped = (Display_blank [''wl_output'' \<mapsto> Output_class] silent)
     \<lparr>ids := 3, objects := [1 \<mapsto> root, 2 \<mapsto> reg_proxy registry2]\<rparr>"

definition and_then :: "('s, 's) res \<Rightarrow> ('s \<Rightarrow> ('s, 's) res) \<Rightarrow> ('s, 's) res" where
  "and_then r f = (case r of Inl e \<Rightarrow> Inl e | Inr x \<Rightarrow> f x)"

definition two_outputs_one_removed ::
  "packer \<Rightarrow> base_remove_obj \<Rightarrow> (registry \<times> display, registry \<times> display) res" where
  "two_outputs_one_removed P B =
     and_then
       (and_then (handle_global P 10 ''wl_output'' 3 (registry2, bootstrapped))
                 (handle_global P 11 ''wl_output'' 3))
       (handle_global_remove B 10)"

section \<open>Properties\<close>

subsection \<open>Id allocation\<close>

lemma next_ids_upt:
  assumes "open_ids s = []" and "ids s + n \<le> 0xffffffff"
  shows "next_ids n s = Inr ([ids s..<ids s + n], s\<lparr>ids := ids s + n\<rparr>)"
  using assms
proof (induction n arbitrary: s)
  case 0
  then show ?case by simp
next
  case (Suc n)
  let ?s1 = "s\<lparr>ids := Suc (ids s)\<rparr>"
  from Suc.prems have step: "next_id s = Inr (ids s, ?s1)"
    by (simp add: next_id_def)
  from Suc.prems have "next_ids n ?s1 = Inr ([ids ?s1..<ids ?s1 + n], ?s1\<lparr>ids := ids ?s1 + n\<rparr>)"
    by (intro Suc.IH) simp_all
  with step show ?case by (simp add: upt_conv_Cons)
qed

text \<open>
  Claim C7. With an empty free-list and a counter that has not run out, \<open>n\<close> calls of
  \<^verbatim>\<open>next_id\<close> in a row all return, and return the counter's values in order: the ids
  are strictly increasing and none is 0. The constructor issues 1 as the first id of
  a connection, to the display itself.
\<close>

theorem next_id_strictly_increasing:
  assumes "open_ids s = []" and "0 < ids s" and "ids s + n \<le> 0xffffffff"
  shows "(\<exists>xs s'. next_ids n s = Inr (xs, s') \<and> xs = [ids s..<ids s + n]
            \<and> sorted_wrt (<) xs \<and> 0 \<notin> set xs)
       \<and> (\<exists>s1. Display_init T c = Inr (\<lparr>cls = Display_class, obj_id = 1\<rparr>, s1)
            \<and> open_ids s1 = [] \<and> ids s1 = 2)"
proof
  from assms(1,3) have "next_ids n s = Inr ([ids s..<ids s + n], s\<lparr>ids := ids s + n\<rparr>)"
    by (rule next_ids_upt)
  moreover have "sorted_wrt (<) [ids s..<ids s + n]" by simp
  moreover from assms(2) have "0 \<notin> set [ids s..<ids s + n]" by simp
  ultimately show "\<exists>xs s'. next_ids n s = Inr (xs, s') \<and> xs = [ids s..<ids s + n]
            \<and> sorted_wrt (<) xs \<and> 0 \<notin> set xs" by blast
next
  show "\<exists>s1. Display_init T c = Inr (\<lparr>cls = Display_class, obj_id = 1\<rparr>, s1)
            \<and> open_ids s1 = [] \<and> ids s1 = 2"
    by (simp add: Display_init_def Display_blank_def next_id_def Let_def)
qed

theorem next_id_strictly_increasing_witness:
  "open_ids (Display_blank Map.empty silent) = [] \<and> 0 < ids (Display_blank Map.empty silent)
   \<and> ids (Display_blank Map.empty silent) + 3 \<le> 0xffffffff
   \<and> (\<exists>s'. next_ids 3 (Display_blank Map.empty silent) = Inr ([1, 2, 3], s'))"
proof -
  let ?s = "Display_blank Map.empty silent"
  have h: "open_ids ?s = []" "0 < ids ?s" "ids ?s + 3 \<le> 0xffffffff"
    by (simp_all add: Display_blank_def)
  have "[ids ?s..<ids ?s + 3] = [1, 2, 3]"
    by (simp add: Display_blank_def upt_rec)
  with next_id_strictly_increasing [OF h, of Map.empty silent] h show ?thesis
    by auto
qed

text \<open>The acknowledgment handler leaves the allocator alone, whatever the id.\<close>

lemma handle_delete_id_allocator:
  assumes "handle_delete_id obj s = Inr s'"
  shows "open_ids s' = open_ids s \<and> ids s' = ids s"
  using assms
  by (auto simp: handle_delete_id_def remove_object_def Let_def split: if_splits)

text \<open>An id that was pending deletion is still in \<^verbatim>\<open>dead_objects\<close> afterwards: the
  handler appends it once more before it removes one occurrence.\<close>

lemma handle_delete_id_still_dead:
  assumes "handle_delete_id obj s = Inr s'" and "obj \<in> set (dead_objects s)"
  shows "obj \<in> set (dead_objects s')"
proof -
  from assms(2) have "obj \<in> set (remove1 obj (dead_objects s @ [obj]))"
    by (simp add: remove1_append)
  with assms(1) show ?thesis
    by (auto simp: handle_delete_id_def remove_object_def Let_def split: if_splits)
qed

text \<open>
  Claim C1, on the connection \<open>pending5\<close>. The acknowledgment for id 5 takes 5 out of
  \<^verbatim>\<open>objects\<close> and changes nothing else: \<^verbatim>\<open>open_ids\<close> stays empty, 5 stays in
  \<^verbatim>\<open>dead_objects\<close>, and the next \<^verbatim>\<open>next_id\<close> returns 6.
\<close>

theorem handle_delete_id_never_frees:
  "handle_delete_id 5 pending5 = Inr (pending5\<lparr>objects := [1 \<mapsto> \<lparr>cls = Display_class, obj_id = 1\<rparr>]\<rparr>)
   \<and> open_ids (final (handle_delete_id 5 pending5)) = []
   \<and> dead_objects (final (handle_delete_id 5 pending5)) = [5]
   \<and> map_sum fst fst (next_id (final (handle_delete_id 5 pending5))) = Inr 6"
  by (simp add: handle_delete_id_def remove_object_def pending5_def Display_blank_def Let_def
      final_def next_id_def)

subsection \<open>Decoding\<close>



lemma hdr_append:
  assumes "length a \<ge> 8"
  shows "hdr_obj_id (a @ b) = hdr_obj_id a" "hdr_size (a @ b) = hdr_size a" "hdr_op (a @ b) = hdr_op a"
  using assms by (simp_all add: hdr_obj_id_def hdr_size_def hdr_op_def hdr_sizeop_def)

lemma decode_body_append_Continue:
  assumes "decode_body U a s = Continue d s'"
  shows "decode_body U (a @ b) s = Continue (d @ b) s'"
  using assms
  by (auto simp: decode_body_def Let_def hdr_append split: if_splits option.splits sum.splits)

lemma decode_body_append_Raise:
  assumes "decode_body U a s = Raise e"
  shows "decode_body U (a @ b) s = Raise e"
  using assms
  by (auto simp: decode_body_def Let_def hdr_append split: if_splits option.splits sum.splits)

lemma decode_loop_Stop: "decode_body U a s = Stop \<Longrightarrow> decode_loop U a s = Some (Inr (a, s))"
  by (subst decode_loop.simps) simp

lemma decode_loop_Raise: "decode_body U a s = Raise e \<Longrightarrow> decode_loop U a s = Some (Inl (e, s))"
  by (subst decode_loop.simps) simp

lemma decode_loop_Nil: "decode_loop U [] s = Some (Inr ([], s))"
  by (rule decode_loop_Stop) (simp add: decode_body_def)

lemma decode_loop_Continue:
  "decode_body U a s = Continue d s' \<Longrightarrow> decode_loop U a s = decode_loop U d s'"
  by (subst decode_loop.simps) simp

text \<open>What a run on a prefix leaves is where the run on the whole buffer goes on.\<close>

lemma decode_loop_append:
  assumes "decode_loop U a s = Some (Inr (rest, s'))"
  shows "decode_loop U (a @ b) s = decode_loop U (rest @ b) s'"
proof -
  have "\<forall>rest s'. y = Inr (rest, s') \<longrightarrow> decode_loop U (a @ b) s = decode_loop U (rest @ b) s'"
    if "decode_loop U a s = Some y" for y
    using that
  proof (induction U a s y rule: decode_loop.raw_induct)
    case (1 f U a s y)
    show ?case
    proof (cases "decode_body U a s")
      case Stop
      with 1(3) show ?thesis by (auto simp: decode_loop_Stop)
    next
      case (Raise e)
      with 1(3) show ?thesis by (auto simp: decode_loop_Raise)
    next
      case (Continue d s1)
      with 1(2) have "f U d s1 = Some y" by simp
      moreover from 1(3) Continue have "decode_loop U d s1 = Some y"
        by (simp add: decode_loop_Continue)
      ultimately
      have "\<forall>rest s'. y = Inr (rest, s') \<longrightarrow> decode_loop U (d @ b) s1 = decode_loop U (rest @ b) s'"
        by (rule 1(1))
      moreover have "decode_loop U (a @ b) s = decode_loop U (d @ b) s1"
        by (rule decode_loop_Continue) (rule decode_body_append_Continue [OF Continue])
      ultimately show ?thesis by simp
    qed
  qed (rule that)
  with assms show ?thesis by blast
qed

text \<open>A run on the whole buffer that returns passes through a run on every prefix.\<close>

lemma decode_loop_prefix:
  assumes "decode_loop U (a @ b) s = Some y"
  shows "(\<exists>rest s'. decode_loop U a s = Some (Inr (rest, s')) \<and> decode_loop U (rest @ b) s' = Some y)
       \<or> (\<exists>e. decode_loop U a s = Some (Inl e) \<and> y = Inl e)"
proof -
  have "\<forall>a b. d = a @ b \<longrightarrow>
           (\<exists>rest s'. decode_loop U a s = Some (Inr (rest, s')) \<and> decode_loop U (rest @ b) s' = Some y)
         \<or> (\<exists>e. decode_loop U a s = Some (Inl e) \<and> y = Inl e)"
    if "decode_loop U d s = Some y" for d
    using that
  proof (induction U d s y rule: decode_loop.raw_induct)
    case (1 f U d s y)
    show ?case
    proof (intro allI impI)
      fix a b assume d: "d = a @ b"
      show "(\<exists>rest s'. decode_loop U a s = Some (Inr (rest, s')) \<and> decode_loop U (rest @ b) s' = Some y)
         \<or> (\<exists>e. decode_loop U a s = Some (Inl e) \<and> y = Inl e)"
      proof (cases "decode_body U a s")
        case Stop
        then have "decode_loop U a s = Some (Inr (a, s))" by (rule decode_loop_Stop)
        with 1(3) d show ?thesis by blast
      next
        case (Raise e)
        then have "decode_loop U a s = Some (Inl (e, s))" by (rule decode_loop_Raise)
        moreover from Raise have "decode_body U d s = Raise e"
          unfolding d by (rule decode_body_append_Raise)
        with 1(3) have "y = Inl (e, s)" by (simp add: decode_loop_Raise)
        ultimately show ?thesis by blast
      next
        case (Continue d1 s1)
        then have whole: "decode_body U d s = Continue (d1 @ b) s1"
          unfolding d by (rule decode_body_append_Continue)
        with 1(2) have "f U (d1 @ b) s1 = Some y" by simp
        moreover from 1(3) whole have "decode_loop U (d1 @ b) s1 = Some y"
          by (simp add: decode_loop_Continue)
        ultimately have "\<forall>a' b'. d1 @ b = a' @ b' \<longrightarrow>
           (\<exists>rest s'. decode_loop U a' s1 = Some (Inr (rest, s')) \<and> decode_loop U (rest @ b') s' = Some y)
           \<or> (\<exists>e. decode_loop U a' s1 = Some (Inl e) \<and> y = Inl e)"
          by (rule 1(1))
        then have "(\<exists>rest s'. decode_loop U d1 s1 = Some (Inr (rest, s')) \<and> decode_loop U (rest @ b) s' = Some y)
           \<or> (\<exists>e. decode_loop U d1 s1 = Some (Inl e) \<and> y = Inl e)" by blast
        with Continue show ?thesis by (simp add: decode_loop_Continue)
      qed
    qed
  qed (rule that)
  with assms show ?thesis by blast
qed


lemma decode_buffer:
  "decode U data s =
     (case decode_loop U (previous_data s @ data) s of
        None \<Rightarrow> None
      | Some (Inl e) \<Rightarrow> Some (Inl e)
      | Some (Inr (rest, s')) \<Rightarrow> Some (Inr (s'\<lparr>previous_data := rest\<rparr>)))"
  by (simp add: decode_def)

text \<open>The loop neither reads nor writes \<^verbatim>\<open>previous_data\<close>.\<close>

lemma decode_body_previous_data:
  "decode_body U d (s\<lparr>previous_data := p\<rparr>) =
     (case decode_body U d s of
        Stop \<Rightarrow> Stop
      | Raise e \<Rightarrow> Raise e
      | Continue d' s' \<Rightarrow> Continue d' (s'\<lparr>previous_data := p\<rparr>))"
  by (simp add: decode_body_def Let_def split: option.splits sum.splits)

lemma decode_loop_previous_data_Inr:
  assumes "decode_loop U d s = Some (Inr (rest, s'))"
  shows "decode_loop U d (s\<lparr>previous_data := p\<rparr>) = Some (Inr (rest, s'\<lparr>previous_data := p\<rparr>))"
proof -
  have "\<forall>rest s'. y = Inr (rest, s') \<longrightarrow>
          decode_loop U d (s\<lparr>previous_data := p\<rparr>) = Some (Inr (rest, s'\<lparr>previous_data := p\<rparr>))"
    if "decode_loop U d s = Some y" for y
    using that
  proof (induction U d s y rule: decode_loop.raw_induct)
    case (1 f U d s y)
    show ?case
    proof (cases "decode_body U d s")
      case Stop
      then have "decode_body U d (s\<lparr>previous_data := p\<rparr>) = Stop"
        by (simp add: decode_body_previous_data)
      with Stop 1(3) show ?thesis by (auto simp: decode_loop_Stop)
    next
      case (Raise e)
      with 1(3) show ?thesis by (auto simp: decode_loop_Raise)
    next
      case (Continue d1 s1)
      then have "decode_body U d (s\<lparr>previous_data := p\<rparr>) = Continue d1 (s1\<lparr>previous_data := p\<rparr>)"
        by (simp add: decode_body_previous_data)
      then have "decode_loop U d (s\<lparr>previous_data := p\<rparr>) = decode_loop U d1 (s1\<lparr>previous_data := p\<rparr>)"
        by (rule decode_loop_Continue)
      moreover from Continue 1(2) have "f U d1 s1 = Some y" by simp
      moreover from Continue 1(3) have "decode_loop U d1 s1 = Some y"
        by (simp add: decode_loop_Continue)
      ultimately show ?thesis using 1(1) by simp
    qed
  qed (rule that)
  with assms show ?thesis by blast
qed

text \<open>Two calls in a row do what one call on the joined bytes does.\<close>

lemma decode_append:
  assumes "decode U a s = Some (Inr s1)"
  shows "decode U b s1 = Some (Inr s2) \<longleftrightarrow> decode U (a @ b) s = Some (Inr s2)"
proof -
  from assms obtain rest s0 where
    run: "decode_loop U (previous_data s @ a) s = Some (Inr (rest, s0))"
    and s1: "s1 = s0\<lparr>previous_data := rest\<rparr>"
    by (auto simp: decode_buffer split: option.splits sum.splits)
  from decode_loop_append [OF run, of b]
  have whole: "decode_loop U (previous_data s @ a @ b) s = decode_loop U (rest @ b) s0" by simp
  have fwd: "decode_loop U (rest @ b) s1 = Some (Inr (r, t\<lparr>previous_data := rest\<rparr>))"
    if "decode_loop U (rest @ b) s0 = Some (Inr (r, t))" for r t
    using decode_loop_previous_data_Inr [OF that, of rest] by (simp add: s1)
  have bwd: "decode_loop U (rest @ b) s0 = Some (Inr (r, t\<lparr>previous_data := previous_data s0\<rparr>))"
    if "decode_loop U (rest @ b) s1 = Some (Inr (r, t))" for r t
    using decode_loop_previous_data_Inr [OF that, of "previous_data s0"] by (simp add: s1)
  show ?thesis
  proof
    assume "decode U b s1 = Some (Inr s2)"
    then obtain r t where "decode_loop U (rest @ b) s1 = Some (Inr (r, t))" and "s2 = t\<lparr>previous_data := r\<rparr>"
      by (auto simp: decode_buffer s1 split: option.splits sum.splits)
    with bwd [of r t] whole show "decode U (a @ b) s = Some (Inr s2)"
      by (simp add: decode_buffer)
  next
    assume "decode U (a @ b) s = Some (Inr s2)"
    then obtain r t where "decode_loop U (rest @ b) s0 = Some (Inr (r, t))" and "s2 = t\<lparr>previous_data := r\<rparr>"
      by (auto simp: decode_buffer whole split: option.splits sum.splits)
    with fwd [of r t] show "decode U b s1 = Some (Inr s2)"
      by (simp add: decode_buffer s1)
  qed
qed

text \<open>If one call on the joined bytes returns, so does the call on the first part.\<close>

lemma decode_first:
  assumes "decode U (a @ b) s = Some (Inr s2)"
  shows "\<exists>s1. decode U a s = Some (Inr s1)"
proof -
  from assms obtain y where y: "decode_loop U ((previous_data s @ a) @ b) s = Some (Inr y)"
    by (auto simp: decode_buffer split: option.splits sum.splits)
  from decode_loop_prefix [OF y] show ?thesis
    by (auto simp: decode_buffer)
qed

text \<open>
  Claim C2. Take any bytes, cut into one or more chunks in any way. Feeding the chunks
  to \<^verbatim>\<open>decode\<close> one call after the other returns exactly when one call on all the
  bytes returns, and then both leave the same connection: the same events in the same
  order in \<^verbatim>\<open>event_queue\<close>, the same retained bytes, the same descriptors.
\<close>

theorem decode_chunking:
  assumes "chunks \<noteq> []"
  shows "feed U chunks s = Some (Inr s') \<longleftrightarrow> decode U (concat chunks) s = Some (Inr s')"
  using assms
proof (induction chunks arbitrary: s)
  case Nil
  then show ?case by simp
next
  case (Cons c cs)
  show ?case
  proof (cases "cs = []")
    case True
    then show ?thesis by (auto split: option.splits sum.splits)
  next
    case False
    note ih = Cons.IH [OF False]
    show ?thesis
    proof
      assume run: "feed U (c # cs) s = Some (Inr s')"
      then obtain s1 where c: "decode U c s = Some (Inr s1)" and "feed U cs s1 = Some (Inr s')"
        by (auto split: option.splits sum.splits)
      with ih have "decode U (concat cs) s1 = Some (Inr s')" by simp
      with decode_append [OF c] show "decode U (concat (c # cs)) s = Some (Inr s')" by simp
    next
      assume whole: "decode U (concat (c # cs)) s = Some (Inr s')"
      then have w: "decode U (c @ concat cs) s = Some (Inr s')" by simp
      from decode_first [OF w] obtain s1 where c: "decode U c s = Some (Inr s1)" ..
      with decode_append [OF c] w have "decode U (concat cs) s1 = Some (Inr s')" by simp
      with ih have "feed U cs s1 = Some (Inr s')" by simp
      with c show "feed U (c # cs) s = Some (Inr s')" by simp
    qed
  qed
qed

text \<open>Unfolding the decoder on the concrete connection \<open>listening\<close>.\<close>

lemmas eval_decode = decode_def decode_loop.simps decode_body_def listening_def Display_blank_def Let_def
    hdr_obj_id_def hdr_size_def hdr_op_def hdr_sizeop_def u32_le_def core_unpack_def unpack_event_def
    Callback_unpack_event_def unpack_I_def Callback_class_def Display_class_def

theorem decode_chunking_witness:
  "[[5, 0, 0], [0, 3, 0, 12, 0, 1, 2, 3, 4, 2, 0, 0, 0, 0], [0, 12, 0, 7, 0, 0, 0]] \<noteq> ([] :: byte list list)
   \<and> feed core_unpack [[5, 0, 0], [0, 3, 0, 12, 0, 1, 2, 3, 4, 2, 0, 0, 0, 0], [0, 12, 0, 7, 0, 0, 0]] listening
       = Some (Inr (listening\<lparr>event_queue := [Some (\<lparr>cls = Callback_class, obj_id = 2\<rparr>, 0, [UInt 7])]\<rparr>))"
proof -
  let ?chunks = "[[5, 0, 0], [0, 3, 0, 12, 0, 1, 2, 3, 4, 2, 0, 0, 0, 0], [0, 12, 0, 7, 0, 0, 0]] :: byte list list"
  let ?s' = "listening\<lparr>event_queue := [Some (\<lparr>cls = Callback_class, obj_id = 2\<rparr>, 0, [UInt 7])]\<rparr>"
  have ne: "?chunks \<noteq> []" by simp
  have "decode core_unpack (concat ?chunks) listening = Some (Inr ?s')"
    by (simp add: eval_decode)
  with decode_chunking [OF ne, of core_unpack listening ?s'] ne show ?thesis by simp
qed

text \<open>
  Claim C6. When the buffer (the retained bytes followed by the new ones) holds a header
  whose size field is larger than the buffer, \<^verbatim>\<open>decode\<close> returns with the whole buffer
  in \<^verbatim>\<open>previous_data\<close> and nothing else changed: no event is queued.
\<close>

theorem decode_incomplete_frame:
  assumes "8 \<le> length (previous_data s @ data)"
    and "length (previous_data s @ data) < hdr_size (previous_data s @ data)"
  shows "decode U data s = Some (Inr (s\<lparr>previous_data := previous_data s @ data\<rparr>))"
proof -
  from assms have "decode_body U (previous_data s @ data) s = Stop"
    by (simp add: decode_body_def Let_def)
  then show ?thesis by (simp add: decode_buffer decode_loop_Stop)
qed

theorem decode_incomplete_frame_witness:
  "8 \<le> length (previous_data listening @ [2, 0, 0, 0, 0, 0, 12, 0, 7 :: byte])
   \<and> length (previous_data listening @ [2, 0, 0, 0, 0, 0, 12, 0, 7 :: byte])
       < hdr_size (previous_data listening @ [2, 0, 0, 0, 0, 0, 12, 0, 7])
   \<and> decode core_unpack [2, 0, 0, 0, 0, 0, 12, 0, 7] listening
       = Some (Inr (listening\<lparr>previous_data := [2, 0, 0, 0, 0, 0, 12, 0, 7]\<rparr>))
   \<and> event_queue (listening\<lparr>previous_data := [2, 0, 0, 0, 0, 0, 12, 0, 7]\<rparr>) = []"
proof -
  let ?d = "[2, 0, 0, 0, 0, 0, 12, 0, 7] :: byte list"
  have h: "8 \<le> length (previous_data listening @ ?d)"
    "length (previous_data listening @ ?d) < hdr_size (previous_data listening @ ?d)"
    by (simp_all add: listening_def Display_blank_def hdr_size_def hdr_sizeop_def u32_le_def)
  from decode_incomplete_frame [OF h, of core_unpack] h show ?thesis
    by (simp add: listening_def Display_blank_def)
qed

text \<open>What \<^verbatim>\<open>decode\<close> returns when the first pass through the loop stops or raises.\<close>

lemma decode_Stop:
  assumes "decode_body U (previous_data s @ data) s = Stop"
  shows "decode U data s = Some (Inr (s\<lparr>previous_data := previous_data s @ data\<rparr>))"
  using assms by (simp add: decode_buffer decode_loop_Stop)

lemma decode_Raise:
  assumes "decode_body U (previous_data s @ data) s = Raise e"
  shows "decode U data s = Some (Inl (e, s))"
  using assms by (simp add: decode_buffer decode_loop_Raise)

text \<open>
  Claim C5. When the buffer starts with a complete frame whose target is neither in
  \<^verbatim>\<open>dead_objects\<close> nor in \<^verbatim>\<open>objects\<close>, \<^verbatim>\<open>decode\<close> raises the \<^verbatim>\<open>IOError\<close> of line 112
  (an \<^verbatim>\<open>OSError\<close> without errno), and \<^verbatim>\<open>recv\<close>, whose \<^verbatim>\<open>except\<close> clause only
  swallows errno 11, raises it on to its caller.
\<close>

theorem decode_unknown_object:
  assumes "8 \<le> length (previous_data s @ data)"
    and "hdr_size (previous_data s @ data) \<le> length (previous_data s @ data)"
    and "hdr_obj_id (previous_data s @ data) \<notin> set (dead_objects s)"
    and "objects s (hdr_obj_id (previous_data s @ data)) = None"
  shows "decode U data s = Some (Inl (OSError None, s))
       \<and> (recv_script (connection s0) = Recvd data fds # rs \<and> data \<noteq> []
            \<and> s = s0\<lparr>connection := (connection s0)\<lparr>recv_script := rs\<rparr>,
                     incoming_fds := incoming_fds s0 @ fds\<rparr>
          \<longrightarrow> recv U s0 = Some (Inl (OSError None, s)))"
proof -
  from assms have "decode_body U (previous_data s @ data) s = Raise (OSError None)"
    by (simp add: decode_body_def Let_def)
  then have d: "decode U data s = Some (Inl (OSError None, s))" by (rule decode_Raise)
  then show ?thesis
    by (auto simp: recv_def recv_except_def Let_def)
qed

theorem decode_unknown_object_witness:
  "8 \<le> length (previous_data listening @ frame 9 0 [1, 0, 0, 0])
   \<and> hdr_size (previous_data listening @ frame 9 0 [1, 0, 0, 0])
        \<le> length (previous_data listening @ frame 9 0 [1, 0, 0, 0])
   \<and> hdr_obj_id (previous_data listening @ frame 9 0 [1, 0, 0, 0]) \<notin> set (dead_objects listening)
   \<and> objects listening (hdr_obj_id (previous_data listening @ frame 9 0 [1, 0, 0, 0])) = None
   \<and> decode core_unpack (frame 9 0 [1, 0, 0, 0]) listening = Some (Inl (OSError None, listening))
   \<and> recv core_unpack unknown9 = Some (Inl (OSError None, listening))"
proof -
  let ?d = "frame 9 0 [1, 0, 0, 0]"
  have d: "?d = [9, 0, 0, 0, 0, 0, 12, 0, 1, 0, 0, 0]"
    by (simp add: frame_def pack_I_def)
  have h: "8 \<le> length (previous_data listening @ ?d)"
    "hdr_size (previous_data listening @ ?d) \<le> length (previous_data listening @ ?d)"
    "hdr_obj_id (previous_data listening @ ?d) \<notin> set (dead_objects listening)"
    "objects listening (hdr_obj_id (previous_data listening @ ?d)) = None"
    unfolding d
    by (simp_all add: listening_def Display_blank_def hdr_size_def hdr_sizeop_def hdr_obj_id_def u32_le_def)
  have s: "recv_script (connection unknown9) = Recvd ?d [] # [] \<and> ?d \<noteq> []
      \<and> listening = unknown9\<lparr>connection := (connection unknown9)\<lparr>recv_script := []\<rparr>,
                     incoming_fds := incoming_fds unknown9 @ []\<rparr>"
    by (simp add: d unknown9_def listening_def Display_blank_def silent_def)
  from decode_unknown_object [OF h, of core_unpack unknown9 "[]" "[]"] h s show ?thesis
    by blast
qed

text \<open>A header that declares size 0 for a dead object is met again and again.\<close>

lemma decode_loop_never_returns:
  assumes "decode_body U buf s = Continue buf s"
  shows "decode_loop U buf s = None"
proof (rule ccontr)
  assume "decode_loop U buf s \<noteq> None"
  then obtain y where y: "decode_loop U buf s = Some y" by auto
  have "\<not> (V = U \<and> d = buf \<and> t = s)" if "decode_loop V d t = Some y" for V d t
    using that
  proof (induction V d t y rule: decode_loop.raw_induct)
    case (1 f V d t y)
    show ?case
    proof
      assume eq: "V = U \<and> d = buf \<and> t = s"
      with 1(2) assms have "f U buf s = Some y" by simp
      moreover from 1(3) eq have "decode_loop U buf s = Some y" by simp
      ultimately have "\<not> (U = U \<and> buf = buf \<and> s = s)" by (rule 1(1))
      then show False by simp
    qed
  qed (rule that)
  from this [OF y] show False by simp
qed

text \<open>So a header of size 0 for a dead object, which is no frame, keeps \<^verbatim>\<open>decode\<close> from returning.\<close>

lemma decode_dead_size_zero:
  assumes "8 \<le> length (previous_data s @ data)" and "hdr_size (previous_data s @ data) = 0"
    and "hdr_obj_id (previous_data s @ data) \<in> set (dead_objects s)"
  shows "decode U data s = None"
proof -
  from assms have "decode_body U (previous_data s @ data) s = Continue (previous_data s @ data) s"
    by (simp add: decode_body_def Let_def)
  then have "decode_loop U (previous_data s @ data) s = None"
    by (rule decode_loop_never_returns)
  then show ?thesis by (simp add: decode_buffer)
qed

text \<open>
  Claim C4. Let the buffer (the retained bytes followed by the new ones) start with a
  complete frame, of declared size 8 or more, whose target is in \<^verbatim>\<open>dead_objects\<close>. Then
  \<^verbatim>\<open>decode\<close> does what the loop does on the bytes after exactly that size, from the same
  connection: the frame queues nothing and raises nothing. If what follows is not yet
  a whole frame, \<^verbatim>\<open>decode\<close> returns with just those bytes retained and nothing else
  changed; if what follows is one whole frame for a live object, \<^verbatim>\<open>decode\<close> returns with
  that frame's event, and no other, appended to the queue.
\<close>

theorem decode_dead_object:
  assumes "buf = previous_data s @ data" and "rest = drop (hdr_size buf) buf"
    and "8 \<le> length buf" and "8 \<le> hdr_size buf" and "hdr_size buf \<le> length buf"
    and "hdr_obj_id buf \<in> set (dead_objects s)"
  shows "decode U data s =
           (case decode_loop U rest s of
              None \<Rightarrow> None
            | Some (Inl e) \<Rightarrow> Some (Inl e)
            | Some (Inr (left, s')) \<Rightarrow> Some (Inr (s'\<lparr>previous_data := left\<rparr>)))
       \<and> (length rest < 8 \<or> length rest < hdr_size rest
            \<longrightarrow> decode U data s = Some (Inr (s\<lparr>previous_data := rest\<rparr>)))
       \<and> (8 \<le> length rest \<and> hdr_size rest = length rest
            \<and> hdr_obj_id rest \<notin> set (dead_objects s)
            \<and> objects s (hdr_obj_id rest) = Some obj
            \<and> U obj (hdr_op rest) (drop 8 rest) (incoming_fds s) = Inr (ev, fds)
            \<longrightarrow> decode U data s
                  = Some (Inr (s\<lparr>incoming_fds := fds, event_queue := event_queue s @ [ev],
                                 previous_data := []\<rparr>)))"
proof (intro conjI impI)
  from assms have "decode_body U buf s = Continue rest s"
    by (simp add: decode_body_def Let_def)
  then have loop: "decode_loop U buf s = decode_loop U rest s"
    by (rule decode_loop_Continue)
  then show run: "decode U data s =
           (case decode_loop U rest s of
              None \<Rightarrow> None
            | Some (Inl e) \<Rightarrow> Some (Inl e)
            | Some (Inr (left, s')) \<Rightarrow> Some (Inr (s'\<lparr>previous_data := left\<rparr>)))"
    by (simp add: decode_buffer assms(1) [symmetric])
  {
    assume "length rest < 8 \<or> length rest < hdr_size rest"
    then have "decode_body U rest s = Stop"
      by (auto simp: decode_body_def Let_def)
    then have "decode_loop U rest s = Some (Inr (rest, s))" by (rule decode_loop_Stop)
    with run show "decode U data s = Some (Inr (s\<lparr>previous_data := rest\<rparr>))" by simp
  }
  {
    assume n: "8 \<le> length rest \<and> hdr_size rest = length rest
            \<and> hdr_obj_id rest \<notin> set (dead_objects s)
            \<and> objects s (hdr_obj_id rest) = Some obj
            \<and> U obj (hdr_op rest) (drop 8 rest) (incoming_fds s) = Inr (ev, fds)"
    let ?s1 = "s\<lparr>incoming_fds := fds, event_queue := event_queue s @ [ev]\<rparr>"
    from n have "decode_body U rest s = Continue [] ?s1"
      by (simp add: decode_body_def Let_def)
    then have "decode_loop U rest s = decode_loop U [] ?s1" by (rule decode_loop_Continue)
    then have "decode_loop U rest s = Some (Inr ([], ?s1))" by (simp add: decode_loop_Nil)
    with run show "decode U data s
                  = Some (Inr (s\<lparr>incoming_fds := fds, event_queue := event_queue s @ [ev],
                                 previous_data := []\<rparr>))" by simp
  }
qed

theorem decode_dead_object_witness:
  "8 \<le> length (frame 5 3 [1, 2, 3, 4] @ [2, 0, 0, 0, 0])
   \<and> 8 \<le> hdr_size (frame 5 3 [1, 2, 3, 4] @ [2, 0, 0, 0, 0])
   \<and> hdr_size (frame 5 3 [1, 2, 3, 4] @ [2, 0, 0, 0, 0]) \<le> length (frame 5 3 [1, 2, 3, 4] @ [2, 0, 0, 0, 0])
   \<and> hdr_obj_id (frame 5 3 [1, 2, 3, 4] @ [2, 0, 0, 0, 0]) \<in> set (dead_objects listening)
   \<and> decode core_unpack (frame 5 3 [1, 2, 3, 4] @ [2, 0, 0, 0, 0]) listening
       = Some (Inr (listening\<lparr>previous_data := [2, 0, 0, 0, 0]\<rparr>))
   \<and> decode core_unpack (frame 5 3 [1, 2, 3, 4] @ frame 2 0 [7, 0, 0, 0]) listening
       = Some (Inr (listening\<lparr>event_queue := [Some (\<lparr>cls = Callback_class, obj_id = 2\<rparr>, 0, [UInt 7])]\<rparr>))"
proof -
  let ?a = "frame 5 3 [1, 2, 3, 4] @ [2, 0, 0, 0, 0]"
  let ?b = "frame 5 3 [1, 2, 3, 4] @ frame 2 0 [7, 0, 0, 0]"
  let ?cb = "\<lparr>cls = Callback_class, obj_id = 2\<rparr>"
  have a: "?a = [5, 0, 0, 0, 3, 0, 12, 0, 1, 2, 3, 4, 2, 0, 0, 0, 0]"
    by (simp add: frame_def pack_I_def)
  have b: "?b = [5, 0, 0, 0, 3, 0, 12, 0, 1, 2, 3, 4, 2, 0, 0, 0, 0, 0, 12, 0, 7, 0, 0, 0]"
    by (simp add: frame_def pack_I_def)
  have pa: "?a = previous_data listening @ ?a" and pb: "?b = previous_data listening @ ?b"
    by (simp_all add: listening_def Display_blank_def)
  have ra: "[2, 0, 0, 0, 0] = drop (hdr_size ?a) ?a"
    unfolding a by (simp add: hdr_size_def hdr_sizeop_def u32_le_def)
  have rb: "[2, 0, 0, 0, 0, 0, 12, 0, 7, 0, 0, 0] = drop (hdr_size ?b) ?b"
    unfolding b by (simp add: hdr_size_def hdr_sizeop_def u32_le_def)
  have ha: "8 \<le> length ?a" "8 \<le> hdr_size ?a" "hdr_size ?a \<le> length ?a"
    "hdr_obj_id ?a \<in> set (dead_objects listening)"
    unfolding a
    by (simp_all add: listening_def Display_blank_def hdr_size_def hdr_sizeop_def hdr_obj_id_def u32_le_def)
  have hb: "8 \<le> length ?b" "8 \<le> hdr_size ?b" "hdr_size ?b \<le> length ?b"
    "hdr_obj_id ?b \<in> set (dead_objects listening)"
    unfolding b
    by (simp_all add: listening_def Display_blank_def hdr_size_def hdr_sizeop_def hdr_obj_id_def u32_le_def)
  have next_frame: "8 \<le> length [2, 0, 0, 0, 0, 0, 12, 0, 7, 0, 0, 0 :: byte]
      \<and> hdr_size [2, 0, 0, 0, 0, 0, 12, 0, 7, 0, 0, 0] = length [2, 0, 0, 0, 0, 0, 12, 0, 7, 0, 0, 0 :: byte]
      \<and> hdr_obj_id [2, 0, 0, 0, 0, 0, 12, 0, 7, 0, 0, 0] \<notin> set (dead_objects listening)
      \<and> objects listening (hdr_obj_id [2, 0, 0, 0, 0, 0, 12, 0, 7, 0, 0, 0]) = Some ?cb
      \<and> core_unpack ?cb (hdr_op [2, 0, 0, 0, 0, 0, 12, 0, 7, 0, 0, 0])
            (drop 8 [2, 0, 0, 0, 0, 0, 12, 0, 7, 0, 0, 0]) (incoming_fds listening)
          = Inr (Some (?cb, 0, [UInt 7]), [])"
    by (simp add: listening_def Display_blank_def hdr_size_def hdr_sizeop_def hdr_obj_id_def
        hdr_op_def u32_le_def core_unpack_def unpack_event_def Callback_unpack_event_def
        unpack_I_def Callback_class_def)
  have stray: "length [2, 0, 0, 0, 0 :: byte] < 8 \<or> length [2, 0, 0, 0, 0 :: byte] < hdr_size [2, 0, 0, 0, 0]"
    by simp
  from decode_dead_object [OF pa ra ha, of core_unpack] stray
  have ca: "decode core_unpack ?a listening = Some (Inr (listening\<lparr>previous_data := [2, 0, 0, 0, 0]\<rparr>))"
    by blast
  from decode_dead_object [OF pb rb hb, of core_unpack ?cb "Some (?cb, 0, [UInt 7])" "[]"] next_frame
  have "decode core_unpack ?b listening
          = Some (Inr (listening\<lparr>incoming_fds := [],
                event_queue := event_queue listening @ [Some (?cb, 0, [UInt 7])], previous_data := []\<rparr>))"
    by blast
  moreover have "listening\<lparr>incoming_fds := [],
                event_queue := event_queue listening @ [Some (?cb, 0, [UInt 7])], previous_data := []\<rparr>
        = listening\<lparr>event_queue := [Some (?cb, 0, [UInt 7])]\<rparr>"
    by (simp add: listening_def Display_blank_def)
  ultimately have cb: "decode core_unpack ?b listening
       = Some (Inr (listening\<lparr>event_queue := [Some (?cb, 0, [UInt 7])]\<rparr>))" by simp
  from ha ca cb show ?thesis by (intro conjI)
qed

subsection \<open>The registry\<close>

text \<open>
  Claim C10. A global announced under an interface that is not a key of
  \<^verbatim>\<open>global_templates\<close> leaves the registry and the connection exactly as they were: no
  id drawn, nothing added to \<^verbatim>\<open>objects\<close> or \<^verbatim>\<open>globals\<close>, nothing appended to
  \<^verbatim>\<open>out_queue\<close>.
\<close>

theorem handle_global_unknown_interface:
  assumes "global_templates s iface = None"
  shows "handle_global P name iface version (reg, s) = Inr (reg, s)"
  using assms by (simp add: handle_global_def)

theorem handle_global_unknown_interface_witness:
  "global_templates listening ''wl_unheard_of'' = None
   \<and> handle_global pack_arguments 10 ''wl_unheard_of'' 4 (registry2, listening)
       = Inr (registry2, listening)"
proof -
  have h: "global_templates listening ''wl_unheard_of'' = None"
    by (simp add: listening_def Display_blank_def)
  from handle_global_unknown_interface [OF h, of pack_arguments 10 4 registry2] h
  show ?thesis by simp
qed

subsection \<open>Flushing\<close>

lemma started_append: "started (a @ b) = started a @ started b"
  by (induction a rule: started.induct) simp_all

lemma send_rest_log:
  assumes "send_rest data sent c = Some (r, c')"
  shows "\<exists>new. wire_log c' = wire_log c @ new \<and> started new = []"
  using assms
proof (induction data sent c rule: send_rest.induct)
  case (1 data sent c)
  show ?case
  proof (cases "sent < length data")
    case False
    with "1.prems" show ?thesis by (subst (asm) send_rest.simps) simp
  next
    case True
    show ?thesis
    proof (cases "send_script c")
      case Nil
      with True "1.prems" show ?thesis by (subst (asm) send_rest.simps) simp
    next
      case (Cons x rs)
      let ?c1 = "c\<lparr>send_script := rs, wire_log := wire_log c @ [Send (drop sent data)]\<rparr>"
      show ?thesis
      proof (cases x)
        case (Sent n)
        with True Cons "1.prems" have "send_rest data (sent + n) ?c1 = Some (r, c')"
          by (subst (asm) send_rest.simps) simp
        with "1.IH" [OF True Cons refl Sent]
        obtain new where "wire_log c' = wire_log ?c1 @ new" and "started new = []" by blast
        then have "wire_log c' = wire_log c @ (Send (drop sent data) # new)"
          and "started (Send (drop sent data) # new) = []" by simp_all
        then show ?thesis by blast
      next
        case (SendErr e)
        with True Cons "1.prems" have "c' = ?c1"
          by (subst (asm) send_rest.simps) simp
        then have "wire_log c' = wire_log c @ [Send (drop sent data)]" by simp
        moreover have "started [Send (drop sent data)] = []" by simp
        ultimately show ?thesis by blast
      qed
    qed
  qed
qed

lemma send_entry_log:
  assumes "send_entry ent c = Some (r, c')"
  shows "\<exists>new. wire_log c' = wire_log c @ new \<and> started new = [ent]"
proof (cases "send_script c")
  case Nil
  with assms show ?thesis by (simp add: send_entry_def)
next
  case (Cons x rs)
  let ?c1 = "c\<lparr>send_script := rs, wire_log := wire_log c @ [Sendmsg (fst ent) (snd ent)]\<rparr>"
  show ?thesis
  proof (cases x)
    case (Sent n)
    with Cons assms have "send_rest (fst ent) n ?c1 = Some (r, c')"
      by (simp add: send_entry_def)
    from send_rest_log [OF this] obtain new where
      "wire_log c' = wire_log ?c1 @ new" and "started new = []" by blast
    then have "wire_log c' = wire_log c @ (Sendmsg (fst ent) (snd ent) # new)"
      and "started (Sendmsg (fst ent) (snd ent) # new) = [ent]" by simp_all
    then show ?thesis by blast
  next
    case (SendErr e)
    with Cons assms have "c' = ?c1" by (simp add: send_entry_def)
    then have "wire_log c' = wire_log c @ [Sendmsg (fst ent) (snd ent)]" by simp
    moreover have "started [Sendmsg (fst ent) (snd ent)] = [ent]" by simp
    ultimately show ?thesis by blast
  qed
qed

lemma flush_would_block:
  assumes "out_queue s = A # q" and "send_entry A (connection s) = Some (Inl 11, c)"
  shows "flush s = Some (Inr (s\<lparr>connection := c\<rparr>))"
proof -
  have "s\<lparr>out_queue := q, connection := c, out_queue := A # q\<rparr> = s\<lparr>connection := c\<rparr>"
    using assms(1) by (cases s) simp
  with assms show ?thesis by (subst flush.simps) (simp add: Let_def)
qed

lemma flush_order:
  assumes "flush s = Some (Inr s')"
  shows "\<exists>done new. out_queue s = done @ out_queue s'
           \<and> wire_log (connection s') = wire_log (connection s) @ new
           \<and> started new = done @ take 1 (out_queue s')"
  using assms
proof (induction s rule: flush.induct)
  case (1 s)
  show ?case
  proof (cases "out_queue s")
    case Nil
    with "1.prems" have "s' = s" by (subst (asm) flush.simps) simp
    with Nil have "out_queue s = [] @ out_queue s'"
      "wire_log (connection s') = wire_log (connection s) @ []"
      "started [] = [] @ take 1 (out_queue s')" by simp_all
    then show ?thesis by blast
  next
    case (Cons ent q)
    let ?s1 = "s\<lparr>out_queue := q\<rparr>"
    from Cons "1.prems" obtain r c where ent: "send_entry ent (connection s) = Some (r, c)"
      by (subst (asm) flush.simps) (auto simp: Let_def split: option.splits)
    from send_entry_log [OF ent] obtain new1 where
      log1: "wire_log c = wire_log (connection s) @ new1" and st1: "started new1 = [ent]" by blast
    show ?thesis
    proof (cases r)
      case (Inl e)
      with Cons ent "1.prems" have e: "e = 11" and s': "s' = ?s1\<lparr>connection := c, out_queue := ent # q\<rparr>"
        by (subst (asm) flush.simps, simp add: Let_def split: if_splits)+
      from s' Cons log1 st1 have "out_queue s = [] @ out_queue s'"
        "wire_log (connection s') = wire_log (connection s) @ new1"
        "started new1 = [] @ take 1 (out_queue s')" by simp_all
      then show ?thesis by blast
    next
      case (Inr u)
      with Cons ent "1.prems" have rec: "flush (?s1\<lparr>connection := c\<rparr>) = Some (Inr s')"
        by (subst (asm) flush.simps) (simp add: Let_def)
      from Inr ent have "send_entry ent (connection ?s1) = Some (Inr u, c)" by simp
      from "1.IH" [OF Cons refl this refl refl rec]
      obtain dn new2 where "out_queue (?s1\<lparr>connection := c\<rparr>) = dn @ out_queue s'"
        and "wire_log (connection s') = wire_log (connection (?s1\<lparr>connection := c\<rparr>)) @ new2"
        and "started new2 = dn @ take 1 (out_queue s')" by blast
      with Cons log1 st1 have "out_queue s = (ent # dn) @ out_queue s'"
        "wire_log (connection s') = wire_log (connection s) @ (new1 @ new2)"
        "started (new1 @ new2) = (ent # dn) @ take 1 (out_queue s')"
        by (simp_all add: started_append)
      then show ?thesis by blast
    qed
  qed
qed

text \<open>
  Claim C3. If sending the entry at the head of the queue ends in a would-block, at
  \<^verbatim>\<open>sendmsg\<close> or at a later \<^verbatim>\<open>send\<close>, then \<^verbatim>\<open>flush\<close> returns with the queue as it was,
  that entry first. Whenever \<^verbatim>\<open>flush\<close> returns, the queue it leaves is the tail end of
  the queue it found, and the entries it handed to \<^verbatim>\<open>sendmsg\<close> are, in order, the ones
  in front of that tail and then the tail's first entry if there is one: no entry is
  started before one that was queued ahead of it, in this flush or a later one.
\<close>

theorem flush_preserves_order:
  "(out_queue s = A # q \<and> send_entry A (connection s) = Some (Inl 11, c)
      \<longrightarrow> flush s = Some (Inr (s\<lparr>connection := c\<rparr>)))
   \<and> (flush s = Some (Inr s')
      \<longrightarrow> (\<exists>done new. out_queue s = done @ out_queue s'
             \<and> wire_log (connection s') = wire_log (connection s) @ new
             \<and> started new = done @ take 1 (out_queue s')))"
  using flush_would_block [of s A q c] flush_order [of s s'] by blast

theorem flush_preserves_order_witness:
  "out_queue congested = entryA # [entryB]
   \<and> send_entry entryA (connection congested) = Some (Inl 11, congested_after)
   \<and> flush congested = Some (Inr (congested\<lparr>connection := congested_after\<rparr>))
   \<and> (\<exists>done new. out_queue congested = done @ out_queue (congested\<lparr>connection := congested_after\<rparr>)
         \<and> wire_log (connection (congested\<lparr>connection := congested_after\<rparr>))
             = wire_log (connection congested) @ new
         \<and> started new = done @ take 1 (out_queue (congested\<lparr>connection := congested_after\<rparr>)))
   \<and> out_queue (congested\<lparr>connection := congested_after\<rparr>) = [entryA, entryB]
   \<and> started (wire_log congested_after) = [entryA]"
proof -
  let ?s' = "congested\<lparr>connection := congested_after\<rparr>"
  note t = flush_preserves_order [of congested entryA "[entryB]" congested_after ?s']
  have q: "out_queue congested = entryA # [entryB]"
    by (simp add: congested_def Display_blank_def)
  have e: "send_entry entryA (connection congested) = Some (Inl 11, congested_after)"
    by (simp add: send_entry_def send_rest.simps congested_def congested_after_def
        Display_blank_def silent_def entryA_def Let_def)
  from t q e have f: "flush congested = Some (Inr ?s')"
    by blast
  from t f have o: "\<exists>done new. out_queue congested = done @ out_queue ?s'
         \<and> wire_log (connection ?s') = wire_log (connection congested) @ new
         \<and> started new = done @ take 1 (out_queue ?s')"
    by blast
  have l: "started (wire_log congested_after) = [entryA]"
    by (simp add: congested_after_def silent_def)
  have q': "out_queue ?s' = [entryA, entryB]"
    by (simp add: congested_def Display_blank_def)
  from q e f o q' l show ?thesis by (intro conjI)
qed

subsection \<open>Frames on the wire\<close>

text \<open>Four bytes written by \<open>pack_I\<close> read back as the number, below \<open>2 ^ 32\<close>.\<close>

lemma unat_byte: "unat (of_nat n :: byte) = n mod 256"
  by (simp add: unat_of_nat)

lemma u32_le_pack_I_raw:
  "u32_le (pack_I n) = n mod 256 + 256 * (n div 256 mod 256) + 65536 * (n div 65536 mod 256)
          + 16777216 * (n div 16777216 mod 256)"
  by (simp add: u32_le_def pack_I_def unat_byte)

lemma four_digits:
  fixes n :: nat
  assumes "n < 4294967296"
  shows "n mod 256 + 256 * (n div 256 mod 256) + 65536 * (n div 65536 mod 256)
          + 16777216 * (n div 16777216 mod 256) = n"
proof -
  define a where "a = n div 256"
  define b where "b = a div 256"
  define c where "c = b div 256"
  have n: "n = 256 * a + n mod 256" by (simp add: a_def)
  have a: "a = 256 * b + a mod 256" by (simp add: b_def)
  have b: "b = 256 * c + b mod 256" by (simp add: c_def)
  have b': "n div 65536 = b" by (simp add: a_def b_def div_mult2_eq)
  have c': "n div 16777216 = c" by (simp add: a_def b_def c_def div_mult2_eq)
  from assms have "c < 256" unfolding c'[symmetric] by simp
  then have c: "c mod 256 = c" by simp
  have "n mod 256 + 256 * (a mod 256) + 65536 * (b mod 256) + 16777216 * c = n"
    using n a b by linarith
  then show ?thesis by (simp add: a_def [symmetric] b' c' c)
qed

lemma u32_le_pack_I:
  assumes "n < 2 ^ 32"
  shows "u32_le (pack_I n) = n"
  using assms four_digits [of n] by (simp add: u32_le_pack_I_raw)

lemma length_pack_I: "length (pack_I n) = 4"
  by (simp add: pack_I_def)

text \<open>The header of a \<^verbatim>\<open>done\<close> frame reads back as it was written.\<close>

lemma done_frame_header:
  assumes "i < 2 ^ 32" and "length body = 4"
  shows "hdr_obj_id (frame i 0 body) = i"
    and "hdr_size (frame i 0 body) = 12"
    and "hdr_op (frame i 0 body) = 0"
    and "length (frame i 0 body) = 12"
    and "drop 8 (take 12 (frame i 0 body)) = body"
proof -
  have so: "u32_le (pack_I 786432) = 786432"
    by (rule u32_le_pack_I) simp
  show "hdr_obj_id (frame i 0 body) = i"
    by (simp add: hdr_obj_id_def frame_def length_pack_I u32_le_pack_I [OF assms(1)])
  show "hdr_size (frame i 0 body) = 12"
    using assms(2) by (simp add: hdr_size_def hdr_sizeop_def frame_def length_pack_I so)
  show "hdr_op (frame i 0 body) = 0"
    using assms(2) by (simp add: hdr_op_def hdr_sizeop_def frame_def length_pack_I so)
  show "length (frame i 0 body) = 12"
    using assms(2) by (simp add: frame_def length_pack_I)
  show "drop 8 (take 12 (frame i 0 body)) = body"
    using assms(2) by (simp add: frame_def length_pack_I)
qed

text \<open>A proper prefix of a \<^verbatim>\<open>done\<close> frame stops the loop at once.\<close>

lemma decode_body_partial_done:
  assumes "i < 2 ^ 32" and "length body = 4"
    and "frame i 0 body = buf @ missing" and "missing \<noteq> []"
  shows "decode_body U buf t = Stop"
proof (cases "8 \<le> length buf")
  case False
  then show ?thesis by (simp add: decode_body_def)
next
  case True
  from assms(3) have "length (frame i 0 body) = length buf + length missing" by simp
  with assms(4) done_frame_header(4) [OF assms(1,2)] have short: "length buf < 12"
    by (cases missing) simp_all
  from hdr_append(2) [OF True, of missing] assms(3) done_frame_header(2) [OF assms(1,2)]
  have "hdr_size buf = 12" by simp
  with True short show ?thesis by (simp add: decode_body_def Let_def)
qed

lemma decode_partial_done:
  assumes "i < 2 ^ 32" and "length body = 4"
    and "frame i 0 body = (previous_data t @ d) @ missing" and "missing \<noteq> []"
  shows "decode U d t = Some (Inr (t\<lparr>previous_data := previous_data t @ d\<rparr>))"
  by (rule decode_Stop) (rule decode_body_partial_done [OF assms])

text \<open>The whole \<^verbatim>\<open>done\<close> frame for a live callback queues its one event.\<close>

lemma decode_done:
  assumes "obj_id l < 2 ^ 32" and "length body = 4"
    and "previous_data t @ d = frame (obj_id l) 0 body"
    and "objects t (obj_id l) = Some l" and "cls l = Callback_class"
    and "obj_id l \<notin> set (dead_objects t)"
  shows "decode (unpack_event utf8 ext) d t
           = Some (Inr (t\<lparr>event_queue := event_queue t @ [Some (l, 0, [UInt (u32_le body)])],
                          previous_data := []\<rparr>))"
proof -
  let ?f = "frame (obj_id l) 0 body"
  let ?U = "unpack_event utf8 ext"
  let ?t1 = "t\<lparr>incoming_fds := incoming_fds t,
               event_queue := event_queue t @ [Some (l, 0, [UInt (u32_le body)])]\<rparr>"
  note h = done_frame_header [OF assms(1,2)]
  have u: "?U l 0 body (incoming_fds t) = Inr (Some (l, 0, [UInt (u32_le body)]), incoming_fds t)"
    using assms(2,5)
    by (simp add: unpack_event_def Callback_class_def Callback_unpack_event_def unpack_I_def)
  have "decode_body ?U ?f t = Continue (drop 12 ?f) ?t1"
    using h assms(4,6) u by (simp add: decode_body_def Let_def)
  moreover have "drop 12 ?f = []" using h(4) by simp
  ultimately have "decode_loop ?U ?f t = decode_loop ?U [] ?t1"
    by (simp add: decode_loop_Continue)
  then have "decode_loop ?U ?f t = Some (Inr ([], ?t1))"
    by (simp add: decode_loop_Nil)
  then show ?thesis
    by (simp add: decode_buffer assms(3))
qed

subsection \<open>Receiving the answer to a sync\<close>

lemma recv_would_block:
  assumes "recv_script (connection t) = RecvErr 11 # rs"
  shows "recv U t = Some (Inr (t\<lparr>connection := (connection t)\<lparr>recv_script := rs\<rparr>\<rparr>))"
  using assms by (simp add: recv_def recv_except_def)

lemma recv_no_data:
  assumes "recv_script (connection t) = Recvd [] fds # rs"
  shows "recv U t = Some (Inr (t\<lparr>connection := (connection t)\<lparr>recv_script := rs\<rparr>,
                               incoming_fds := incoming_fds t @ fds\<rparr>))"
  using assms by (simp add: recv_def)

lemma recv_data:
  assumes "recv_script (connection t) = Recvd d fds # rs" and "d \<noteq> []"
    and "decode U d (t\<lparr>connection := (connection t)\<lparr>recv_script := rs\<rparr>,
                        incoming_fds := incoming_fds t @ fds\<rparr>) = Some (Inr t')"
  shows "recv U t = Some (Inr t')"
  using assms by (simp add: recv_def)

lemma recv_until_event_step:
  assumes "event_queue t = []" and "recv U t = Some (Inr t1)"
  shows "recv_until_event U t = recv_until_event U t1"
  using assms by (subst recv_until_event.simps) simp

lemma recv_until_event_stop:
  assumes "event_queue t \<noteq> []"
  shows "recv_until_event U t = Some (Inr t)"
  using assms by (subst recv_until_event.simps) simp

text \<open>
  With a live callback \<open>l\<close> and the bytes of its \<^verbatim>\<open>done\<close> frame still to come, the loop of
  line 66 reads script entries up to the one that completes the frame and no further:
  it returns with that one event queued, nothing retained, the descriptors of the
  entries read appended, and nothing else changed.
\<close>

lemma recv_until_done:
  assumes l: "obj_id l < 2 ^ 32" "length body = 4" "cls l = Callback_class"
  shows "objects t (obj_id l) = Some l \<Longrightarrow> obj_id l \<notin> set (dead_objects t) \<Longrightarrow>
         event_queue t = [] \<Longrightarrow> recv_script (connection t) = pre @ rest \<Longrightarrow>
         list_all quiet pre \<Longrightarrow> previous_data t @ recv_bytes pre = frame (obj_id l) 0 body \<Longrightarrow>
         length (previous_data t) < 12 \<Longrightarrow>
         \<exists>used left. pre = used @ left \<and> recv_bytes used = recv_bytes pre
            \<and> recv_until_event (unpack_event utf8 ext) t
                = Some (Inr (t\<lparr>connection := (connection t)\<lparr>recv_script := left @ rest\<rparr>,
                               incoming_fds := incoming_fds t @ recv_fds used,
                               event_queue := [Some (l, 0, [UInt (u32_le body)])],
                               previous_data := []\<rparr>))"
proof (induction pre arbitrary: t)
  case Nil
  then have "length (previous_data t) = length (frame (obj_id l) 0 body)" by simp
  with Nil.prems(7) done_frame_header(4) [OF l(1,2)] show ?case by simp
next
  case (Cons r pre)
  let ?U = "unpack_event utf8 ext"
  let ?ev = "Some (l, 0, [UInt (u32_le body)])"
  from Cons.prems(4) have script: "recv_script (connection t) = r # (pre @ rest)" by simp
  from Cons.prems(5) have qr: "quiet r" and qpre: "list_all quiet pre" by simp_all
  show ?case
  proof (cases r)
    case (RecvErr e)
    with qr have e: "e = 11" by simp
    let ?t1 = "t\<lparr>connection := (connection t)\<lparr>recv_script := pre @ rest\<rparr>\<rparr>"
    from script RecvErr e have "recv ?U t = Some (Inr ?t1)"
      by (simp add: recv_would_block)
    with Cons.prems(3) have step: "recv_until_event ?U t = recv_until_event ?U ?t1"
      by (rule recv_until_event_step)
    from Cons.prems RecvErr have "\<exists>used left. pre = used @ left \<and> recv_bytes used = recv_bytes pre
            \<and> recv_until_event ?U ?t1
                = Some (Inr (?t1\<lparr>connection := (connection ?t1)\<lparr>recv_script := left @ rest\<rparr>,
                               incoming_fds := incoming_fds ?t1 @ recv_fds used,
                               event_queue := [?ev], previous_data := []\<rparr>))"
      by (intro Cons.IH) (simp_all add: qpre)
    then obtain used left where u: "pre = used @ left" "recv_bytes used = recv_bytes pre"
      and run: "recv_until_event ?U ?t1
                = Some (Inr (?t1\<lparr>connection := (connection ?t1)\<lparr>recv_script := left @ rest\<rparr>,
                               incoming_fds := incoming_fds ?t1 @ recv_fds used,
                               event_queue := [?ev], previous_data := []\<rparr>))"
      by blast
    from u RecvErr have "r # pre = (r # used) @ left" "recv_bytes (r # used) = recv_bytes (r # pre)"
      by simp_all
    moreover from step run RecvErr have "recv_until_event ?U t
                = Some (Inr (t\<lparr>connection := (connection t)\<lparr>recv_script := left @ rest\<rparr>,
                               incoming_fds := incoming_fds t @ recv_fds (r # used),
                               event_queue := [?ev], previous_data := []\<rparr>))"
      by simp
    ultimately show ?thesis by blast
  next
    case (Recvd d fds)
    let ?t2 = "t\<lparr>connection := (connection t)\<lparr>recv_script := pre @ rest\<rparr>,
               incoming_fds := incoming_fds t @ fds\<rparr>"
    from Cons.prems(6) Recvd
    have whole: "previous_data t @ d @ recv_bytes pre = frame (obj_id l) 0 body" by simp
    have finish: ?thesis
      if step: "recv_until_event ?U t = recv_until_event ?U t'"
        and t': "connection t' = connection ?t2" "incoming_fds t' = incoming_fds ?t2"
          "t'\<lparr>event_queue := [?ev], previous_data := []\<rparr> = ?t2\<lparr>event_queue := [?ev], previous_data := []\<rparr>"
        and inv: "objects t' (obj_id l) = Some l" "obj_id l \<notin> set (dead_objects t')"
          "event_queue t' = []" "previous_data t' @ recv_bytes pre = frame (obj_id l) 0 body"
          "length (previous_data t') < 12"
      for t'
    proof -
      from inv t' have "\<exists>used left. pre = used @ left \<and> recv_bytes used = recv_bytes pre
            \<and> recv_until_event ?U t'
                = Some (Inr (t'\<lparr>connection := (connection t')\<lparr>recv_script := left @ rest\<rparr>,
                               incoming_fds := incoming_fds t' @ recv_fds used,
                               event_queue := [?ev], previous_data := []\<rparr>))"
        by (intro Cons.IH) (simp_all add: qpre)
      then obtain used left where u: "pre = used @ left" "recv_bytes used = recv_bytes pre"
        and run: "recv_until_event ?U t'
                = Some (Inr (t'\<lparr>connection := (connection t')\<lparr>recv_script := left @ rest\<rparr>,
                               incoming_fds := incoming_fds t' @ recv_fds used,
                               event_queue := [?ev], previous_data := []\<rparr>))"
        by blast
      have "t'\<lparr>connection := (connection t')\<lparr>recv_script := left @ rest\<rparr>,
                               incoming_fds := incoming_fds t' @ recv_fds used,
                               event_queue := [?ev], previous_data := []\<rparr>
          = (t'\<lparr>event_queue := [?ev], previous_data := []\<rparr>)
              \<lparr>connection := (connection t')\<lparr>recv_script := left @ rest\<rparr>,
               incoming_fds := incoming_fds t' @ recv_fds used\<rparr>"
        by simp
      also have "\<dots> = (?t2\<lparr>event_queue := [?ev], previous_data := []\<rparr>)
              \<lparr>connection := (connection ?t2)\<lparr>recv_script := left @ rest\<rparr>,
               incoming_fds := incoming_fds ?t2 @ recv_fds used\<rparr>"
        by (simp only: t')
      also have "\<dots> = t\<lparr>connection := (connection t)\<lparr>recv_script := left @ rest\<rparr>,
                               incoming_fds := incoming_fds t @ recv_fds (r # used),
                               event_queue := [?ev], previous_data := []\<rparr>"
        by (simp add: Recvd)
      finally have "recv_until_event ?U t
                = Some (Inr (t\<lparr>connection := (connection t)\<lparr>recv_script := left @ rest\<rparr>,
                               incoming_fds := incoming_fds t @ recv_fds (r # used),
                               event_queue := [?ev], previous_data := []\<rparr>))"
        using step run by simp
      moreover from u Recvd have "r # pre = (r # used) @ left"
        "recv_bytes (r # used) = recv_bytes (r # pre)" by simp_all
      ultimately show ?thesis by blast
    qed
    show ?thesis
    proof (cases "d = []")
      case True
      with script Recvd have "recv ?U t = Some (Inr ?t2)"
        by (simp add: recv_no_data)
      with Cons.prems(3) have step: "recv_until_event ?U t = recv_until_event ?U ?t2"
        by (rule recv_until_event_step)
      from step Cons.prems whole True show ?thesis
        by (intro finish [of ?t2]) simp_all
    next
      case False
      show ?thesis
      proof (cases "recv_bytes pre = []")
        case True
        with whole have full: "previous_data ?t2 @ d = frame (obj_id l) 0 body" by simp
        let ?t3 = "?t2\<lparr>event_queue := event_queue ?t2 @ [?ev], previous_data := []\<rparr>"
        from Cons.prems(1,2) have "objects ?t2 (obj_id l) = Some l"
          and "obj_id l \<notin> set (dead_objects ?t2)" by simp_all
        with l full have "decode ?U d ?t2 = Some (Inr ?t3)"
          by (intro decode_done)
        with script Recvd False have "recv ?U t = Some (Inr ?t3)"
          by (intro recv_data) simp_all
        with Cons.prems(3) have step: "recv_until_event ?U t = recv_until_event ?U ?t3"
          by (rule recv_until_event_step)
        have "recv_until_event ?U ?t3 = Some (Inr ?t3)"
          by (rule recv_until_event_stop) simp
        with step Cons.prems(3) have "recv_until_event ?U t
                = Some (Inr (t\<lparr>connection := (connection t)\<lparr>recv_script := pre @ rest\<rparr>,
                               incoming_fds := incoming_fds t @ recv_fds [r],
                               event_queue := [?ev], previous_data := []\<rparr>))"
          by (simp add: Recvd)
        moreover have "r # pre = [r] @ pre" by simp
        moreover from True have "recv_bytes [r] = recv_bytes (r # pre)"
          by (simp add: Recvd)
        ultimately show ?thesis by blast
      next
        case more: False
        let ?t4 = "?t2\<lparr>previous_data := previous_data ?t2 @ d\<rparr>"
        from whole have "frame (obj_id l) 0 body = (previous_data ?t2 @ d) @ recv_bytes pre" by simp
        with l(1,2) more have "decode ?U d ?t2 = Some (Inr ?t4)"
          by (intro decode_partial_done)
        with script Recvd False have "recv ?U t = Some (Inr ?t4)"
          by (intro recv_data) simp_all
        with Cons.prems(3) have step: "recv_until_event ?U t = recv_until_event ?U ?t4"
          by (rule recv_until_event_step)
        from whole have "length (previous_data t @ d) + length (recv_bytes pre) = length (frame (obj_id l) 0 body)"
          by (metis append.assoc length_append)
        with more done_frame_header(4) [OF l(1,2)] have short: "length (previous_data t @ d) < 12"
          by (cases "recv_bytes pre") simp_all
        from step Cons.prems whole short show ?thesis
          by (intro finish [of ?t4]) simp_all
      qed
    qed
  qed
qed

subsection \<open>The roundtrip\<close>

text \<open>\<^verbatim>\<open>flush\<close> touches the socket and the outbound queue only.\<close>

lemma flush_frame:
  assumes "flush s = Some (Inr s')"
  shows "objects s' = objects s \<and> dead_objects s' = dead_objects s
       \<and> event_queue s' = event_queue s \<and> previous_data s' = previous_data s
       \<and> incoming_fds s' = incoming_fds s"
  using assms
proof (induction s rule: flush.induct)
  case (1 s)
  show ?case
  proof (cases "out_queue s")
    case Nil
    with "1.prems" have "s' = s" by (subst (asm) flush.simps) simp
    then show ?thesis by simp
  next
    case (Cons ent q)
    let ?s1 = "s\<lparr>out_queue := q\<rparr>"
    from Cons "1.prems" obtain r c where ent: "send_entry ent (connection s) = Some (r, c)"
      by (subst (asm) flush.simps) (auto simp: Let_def split: option.splits)
    show ?thesis
    proof (cases r)
      case (Inl e)
      with Cons ent "1.prems" have "s' = ?s1\<lparr>connection := c, out_queue := ent # q\<rparr>"
        by (subst (asm) flush.simps) (simp add: Let_def split: if_splits)
      then show ?thesis by simp
    next
      case (Inr u)
      with Cons ent "1.prems" have rec: "flush (?s1\<lparr>connection := c\<rparr>) = Some (Inr s')"
        by (subst (asm) flush.simps) (simp add: Let_def)
      from Inr ent have "send_entry ent (connection ?s1) = Some (Inr u, c)" by simp
      from "1.IH" [OF Cons refl this refl refl rec] show ?thesis by simp
    qed
  qed
qed

lemma sync_result:
  assumes "sync P self s = Inr (l, s1)"
  shows "cls l = Callback_class \<and> objects s1 = (objects s)(obj_id l \<mapsto> l)
       \<and> out_queue s1 = out_queue s @ [(P self 0 [UInt (obj_id l)], [])]
       \<and> connection s1 = connection s \<and> incoming_fds s1 = incoming_fds s
       \<and> dead_objects s1 = dead_objects s \<and> event_queue s1 = event_queue s
       \<and> previous_data s1 = previous_data s"
  using assms
  by (auto simp: sync_def next_id_def Let_def split: list.splits if_splits)

lemma dispatch_pending_Nil:
  assumes "event_queue t = []"
  shows "dispatch_pending H x t = Some (Inr (x, t))"
  using assms by (subst dispatch_pending.simps) simp

text \<open>The one queued \<^verbatim>\<open>done\<close> event reaches the closure, which sets the flag.\<close>

lemma dispatch_pending_done:
  assumes "event_queue t = [Some (l, 0, [a])]" and "cls l = Callback_class"
  shows "dispatch_pending (with_done l H) (False, x) t
           = Some (Inr ((True, x), t\<lparr>event_queue := []\<rparr>))"
proof -
  have "with_done l H l ''handle_done'' [a] ((False, x), t\<lparr>event_queue := []\<rparr>)
          = Inr ((True, x), t\<lparr>event_queue := []\<rparr>)"
    by (simp add: with_done_def)
  with assms have "dispatch_pending (with_done l H) (False, x) t
          = dispatch_pending (with_done l H) (True, x) (t\<lparr>event_queue := []\<rparr>)"
    by (subst dispatch_pending.simps) (simp add: Callback_class_def Let_def)
  then show ?thesis by (simp add: dispatch_pending_Nil)
qed


text \<open>The roundtrip on the connection \<open>rt_start\<close>, step by step.\<close>

lemma sync_request_length: "length (pack_arguments root 0 [UInt 2]) = 12"
  by (simp add: pack_arguments_def frame_def pack_I_def)

lemma ev_sync: "sync pack_arguments root rt_start = Inr (callback2, rt_synced)"
    by (simp add: sync_def next_id_def rt_start_def rt_synced_def callback2_def
        Display_blank_def Let_def)

lemma ev_flush: "flush rt_synced = Some (Inr rt_flushed)"
    by (simp add: flush.simps send_entry_def send_rest.simps sync_request_length rt_flushed_def rt_synced_def
        rt_start_def Display_blank_def silent_def Let_def)

lemma ev_recv: "recv_until_event core_unpack rt_flushed
   = Some (Inr (rt_done\<lparr>event_queue := [Some (callback2, 0, [UInt 7])]\<rparr>))"
  by (simp add: recv_until_event.simps recv_def recv_except_def eval_decode
      rt_done_def rt_flushed_def rt_synced_def rt_start_def silent_def answer_def later_def
      callback2_def root_def)

lemma ev_roundtrip:
  "roundtrip core_unpack pack_arguments no_handlers root () rt_start = Some (Inr (1, (), rt_done))"
proof -
  have q: "event_queue rt_done = []"
    by (simp add: rt_done_def rt_flushed_def rt_synced_def rt_start_def Display_blank_def)
  have "dispatch_pending (with_done callback2 no_handlers) (False, ())
          (rt_done\<lparr>event_queue := [Some (callback2, 0, [UInt 7])]\<rparr>)
        = Some (Inr ((True, ()), rt_done\<lparr>event_queue := []\<rparr>))"
    by (simp add: dispatch_pending.simps with_done_def callback2_def Callback_class_def Let_def)
  moreover from q have "rt_done\<lparr>event_queue := []\<rparr> = rt_done" by (cases rt_done) simp
  ultimately have "dispatch core_unpack (with_done callback2 no_handlers) (False, ()) rt_synced
        = Some (Inr ((True, ()), rt_done))"
    by (simp add: dispatch_def ev_flush ev_recv)
  then have "roundtrip_loop core_unpack (with_done callback2 no_handlers) 0 (False, ()) rt_synced
        = Some (Inr (1, (), rt_done))"
    by (simp add: roundtrip_loop.simps)
  then show ?thesis by (simp add: roundtrip_def ev_sync)
qed

text \<open>
  Claim C9. Let \<^verbatim>\<open>roundtrip\<close> start with nothing queued or retained, let \<^verbatim>\<open>sync\<close> create
  the callback \<open>l\<close>, let the flush of the first \<^verbatim>\<open>dispatch\<close> send everything, and let the
  peer answer with the one \<^verbatim>\<open>done\<close> frame for \<open>l\<close>, arriving in any number of reads with
  would-blocks in between. Then that first \<^verbatim>\<open>dispatch\<close> call returns with the flag set,
  and \<^verbatim>\<open>roundtrip\<close> returns after exactly this one call. In the connection it leaves,
  \<open>l\<close> is registered under its id, the outbound queue is empty and the sync request has
  gone to \<^verbatim>\<open>sendmsg\<close> after everything queued before it, the script entries that carried
  the answer are consumed and the ones after them are not, their descriptors are
  appended, and nothing is queued or retained.
\<close>

theorem roundtrip_terminates:
  assumes "sync P self s = Inr (l, s1)"
    and "obj_id l < 2 ^ 32" and "obj_id l \<notin> set (dead_objects s)"
    and "event_queue s = []" and "previous_data s = []"
    and "flush s1 = Some (Inr s2)" and "out_queue s2 = []"
    and "recv_script (connection s2) = pre @ rest" and "list_all quiet pre"
    and "recv_bytes pre = frame (obj_id l) 0 body" and "length body = 4"
  shows "\<exists>used left new s'.
           pre = used @ left \<and> recv_bytes used = frame (obj_id l) 0 body
         \<and> dispatch (unpack_event utf8 ext) (with_done l H) (False, x) s1 = Some (Inr ((True, x), s'))
         \<and> roundtrip (unpack_event utf8 ext) P H self x s = Some (Inr (1, x, s'))
         \<and> cls l = Callback_class \<and> objects s' = (objects s)(obj_id l \<mapsto> l)
         \<and> out_queue s' = []
         \<and> wire_log (connection s') = wire_log (connection s) @ new
         \<and> started new = out_queue s @ [(P self 0 [UInt (obj_id l)], [])]
         \<and> recv_script (connection s') = left @ rest
         \<and> incoming_fds s' = incoming_fds s @ recv_fds used
         \<and> dead_objects s' = dead_objects s
         \<and> event_queue s' = [] \<and> previous_data s' = []"
proof -
  let ?U = "unpack_event utf8 ext"
  let ?H = "with_done l H"
  let ?ev = "Some (l, 0, [UInt (u32_le body)])"
  note sy = sync_result [OF assms(1)]
  note fl = flush_frame [OF assms(6)]
  from sy have cb: "cls l = Callback_class" by simp
  from flush_order [OF assms(6)] assms(7) sy obtain new where
    log: "wire_log (connection s2) = wire_log (connection s) @ new"
    and sent: "started new = out_queue s @ [(P self 0 [UInt (obj_id l)], [])]"
    by auto
  from sy fl assms(3,4,5) have
    "objects s2 (obj_id l) = Some l" "obj_id l \<notin> set (dead_objects s2)"
    "event_queue s2 = []" "previous_data s2 @ recv_bytes pre = frame (obj_id l) 0 body"
    "length (previous_data s2) < 12"
    by (simp_all add: assms(10))
  with assms(2,8,9,11) cb obtain used left where
    split: "pre = used @ left" and all: "recv_bytes used = recv_bytes pre"
    and rcv: "recv_until_event ?U s2
        = Some (Inr (s2\<lparr>connection := (connection s2)\<lparr>recv_script := left @ rest\<rparr>,
                       incoming_fds := incoming_fds s2 @ recv_fds used,
                       event_queue := [?ev], previous_data := []\<rparr>))"
    using recv_until_done [of l body s2 pre rest utf8 ext] by blast
  let ?t = "s2\<lparr>connection := (connection s2)\<lparr>recv_script := left @ rest\<rparr>,
                incoming_fds := incoming_fds s2 @ recv_fds used,
                event_queue := [?ev], previous_data := []\<rparr>"
  let ?s' = "?t\<lparr>event_queue := []\<rparr>"
  have "event_queue ?t = [?ev]" by simp
  from this cb have "dispatch_pending ?H (False, x) ?t = Some (Inr ((True, x), ?s'))"
    by (rule dispatch_pending_done)
  with assms(6) rcv have d: "dispatch ?U ?H (False, x) s1 = Some (Inr ((True, x), ?s'))"
    by (simp add: dispatch_def)
  have "roundtrip_loop ?U ?H (Suc 0) (True, x) ?s' = Some (Inr (Suc 0, x, ?s'))"
    by (subst roundtrip_loop.simps) simp
  with d have "roundtrip_loop ?U ?H 0 (False, x) s1 = Some (Inr (1, x, ?s'))"
    by (subst roundtrip_loop.simps) simp
  with assms(1) have r: "roundtrip ?U P H self x s = Some (Inr (1, x, ?s'))"
    by (simp add: roundtrip_def)
  from all assms(10) have used: "recv_bytes used = frame (obj_id l) 0 body" by simp
  have "objects ?s' = (objects s)(obj_id l \<mapsto> l)" using sy fl by simp
  moreover have "out_queue ?s' = []" using assms(7) by simp
  moreover have "wire_log (connection ?s') = wire_log (connection s) @ new" using log by simp
  moreover have "recv_script (connection ?s') = left @ rest" by simp
  moreover have "incoming_fds ?s' = incoming_fds s @ recv_fds used" using sy fl by simp
  moreover have "dead_objects ?s' = dead_objects s" using sy fl by simp
  moreover have "event_queue ?s' = []" "previous_data ?s' = []" by simp_all
  ultimately show ?thesis using split used d r cb sent by blast
qed

theorem roundtrip_terminates_witness:
  "sync pack_arguments root rt_start = Inr (callback2, rt_synced)
   \<and> obj_id callback2 \<notin> set (dead_objects rt_start)
   \<and> flush rt_synced = Some (Inr rt_flushed) \<and> out_queue rt_flushed = []
   \<and> recv_script (connection rt_flushed) = answer @ later \<and> list_all quiet answer
   \<and> recv_bytes answer = frame (obj_id callback2) 0 [7, 0, 0, 0]
   \<and> (\<exists>used left new s'.
           answer = used @ left \<and> recv_bytes used = frame (obj_id callback2) 0 [7, 0, 0, 0]
         \<and> dispatch core_unpack (with_done callback2 no_handlers) (False, ()) rt_synced
             = Some (Inr ((True, ()), s'))
         \<and> roundtrip core_unpack pack_arguments no_handlers root () rt_start = Some (Inr (1, (), s'))
         \<and> objects s' = (objects rt_start)(obj_id callback2 \<mapsto> callback2)
         \<and> out_queue s' = []
         \<and> wire_log (connection s') = wire_log (connection rt_start) @ new
         \<and> started new = out_queue rt_start @ [(pack_arguments root 0 [UInt (obj_id callback2)], [])]
         \<and> recv_script (connection s') = left @ later
         \<and> incoming_fds s' = incoming_fds rt_start @ recv_fds used
         \<and> event_queue s' = [] \<and> previous_data s' = [])
   \<and> roundtrip core_unpack pack_arguments no_handlers root () rt_start = Some (Inr (1, (), rt_done))
   \<and> recv_script (connection rt_done) = later \<and> incoming_fds rt_done = [17]
   \<and> objects rt_done 2 = Some callback2
   \<and> started (wire_log (connection rt_done)) = [(pack_arguments root 0 [UInt 2], [])]"
proof -
  have h1: "sync pack_arguments root rt_start = Inr (callback2, rt_synced)" by (rule ev_sync)
  have h2: "obj_id callback2 < 2 ^ 32" by (simp add: callback2_def)
  have h3: "obj_id callback2 \<notin> set (dead_objects rt_start)"
    by (simp add: rt_start_def Display_blank_def)
  have h4: "event_queue rt_start = []" by (simp add: rt_start_def Display_blank_def)
  have h5: "previous_data rt_start = []" by (simp add: rt_start_def Display_blank_def)
  have h6: "flush rt_synced = Some (Inr rt_flushed)" by (rule ev_flush)
  have h7: "out_queue rt_flushed = []" by (simp add: rt_flushed_def)
  have h8: "recv_script (connection rt_flushed) = answer @ later"
    by (simp add: rt_flushed_def silent_def)
  have h9: "list_all quiet answer" by (simp add: answer_def)
  have h10: "recv_bytes answer = frame (obj_id callback2) 0 [7, 0, 0, 0]"
    by (simp add: answer_def callback2_def frame_def pack_I_def)
  have h11: "length [7, 0, 0, 0 :: byte] = 4" by simp
  from roundtrip_terminates [OF h1 h2 h3 h4 h5 h6 h7 h8 h9 h10 h11,
      of "\<lambda>b. None" "\<lambda>obj op data fds. Inl AttributeError" no_handlers "()"]
  have t: "\<exists>used left new s'.
           answer = used @ left \<and> recv_bytes used = frame (obj_id callback2) 0 [7, 0, 0, 0]
         \<and> dispatch core_unpack (with_done callback2 no_handlers) (False, ()) rt_synced
             = Some (Inr ((True, ()), s'))
         \<and> roundtrip core_unpack pack_arguments no_handlers root () rt_start = Some (Inr (1, (), s'))
         \<and> objects s' = (objects rt_start)(obj_id callback2 \<mapsto> callback2)
         \<and> out_queue s' = []
         \<and> wire_log (connection s') = wire_log (connection rt_start) @ new
         \<and> started new = out_queue rt_start @ [(pack_arguments root 0 [UInt (obj_id callback2)], [])]
         \<and> recv_script (connection s') = left @ later
         \<and> incoming_fds s' = incoming_fds rt_start @ recv_fds used
         \<and> event_queue s' = [] \<and> previous_data s' = []"
    unfolding core_unpack_def by blast
  have d: "recv_script (connection rt_done) = later" "incoming_fds rt_done = [17]"
    "objects rt_done 2 = Some callback2"
    "started (wire_log (connection rt_done)) = [(pack_arguments root 0 [UInt 2], [])]"
    by (simp_all add: rt_done_def rt_flushed_def rt_synced_def silent_def)
  from h1 h3 h6 h7 h8 h9 h10 t ev_roundtrip d show ?thesis by (intro conjI)
qed

subsection \<open>Removing a global\<close>

text \<open>Unfolding the registry's handlers on the connection \<open>bootstrapped\<close>.\<close>

lemmas eval_globals = two_outputs_one_removed_def and_then_def handle_global_def
  handle_global_remove_def globals_add_def globals_remove_def next_id_def remove_object_def
  bootstrapped_def registry2_def Display_blank_def Output_class_def Let_def

text \<open>
  Claim C8, on the connection \<open>bootstrapped\<close>: two outputs announced, the first
  removed. The removal collapses the entry of \<^verbatim>\<open>globals\<close> to the second proxy and queues
  no request, and then its last line looks up \<^verbatim>\<open>remove_obj\<close>. With nothing of that name
  in the base class the lookup raises \<^verbatim>\<open>AttributeError\<close>; with the display's own
  \<^verbatim>\<open>remove_object\<close> under that name the call returns. Either way id 3 is still a key
  of \<^verbatim>\<open>objects\<close>.
\<close>

theorem global_remove_raises:
  "(\<exists>reg s. two_outputs_one_removed P None = Inl (AttributeError, (reg, s))
       \<and> globals s ''wl_output'' = Some (Single \<lparr>cls = Output_class, obj_id = 4\<rparr>)
       \<and> objects s 3 = Some \<lparr>cls = Output_class, obj_id = 3\<rparr>
       \<and> dead_objects s = []
       \<and> out_queue s =
            [(P (reg_proxy registry2) 0 [UInt 10, Str ''wl_output'', UInt 3, UInt 3], []),
             (P (reg_proxy registry2) 0 [UInt 11, Str ''wl_output'', UInt 3, UInt 4], [])])
   \<and> (\<exists>reg s. two_outputs_one_removed P (Some (\<lambda>i s. Inr (remove_object i s))) = Inr (reg, s)
       \<and> globals s ''wl_output'' = Some (Single \<lparr>cls = Output_class, obj_id = 4\<rparr>)
       \<and> objects s 3 = Some \<lparr>cls = Output_class, obj_id = 3\<rparr>
       \<and> dead_objects s = [3]
       \<and> out_queue s =
            [(P (reg_proxy registry2) 0 [UInt 10, Str ''wl_output'', UInt 3, UInt 3], []),
             (P (reg_proxy registry2) 0 [UInt 11, Str ''wl_output'', UInt 3, UInt 4], [])])"
  by (simp add: eval_globals)

end
